theory Spec2Isabelle
  imports Main
begin

section \<open>Memory model\<close>

text \<open>
  The vector of \<^verbatim>\<open>vector.c\<close> is a heap object: a \<^verbatim>\<open>struct VectorCDT\<close> that points to a
  separately allocated buffer of \<^verbatim>\<open>void *\<close> slots. Cloning, growth and the iterator all
  depend on which block a pointer refers to, so the model keeps an explicit store: blocks
  live at addresses, and every operation takes the store and returns the new one.

  A pointer is \<open>NULL\<close>, the address of a block, or \<open>Wild\<close>: the indeterminate contents of
  memory that was allocated and never written. The same type serves for the element
  references (\<^verbatim>\<open>void *\<close> values, opaque to the vector) with \<open>'a\<close> the type of whatever the
  caller's references denote.
\<close>

type_synonym addr = nat

datatype 'a pointer = NULL | Ptr 'a | Wild

text \<open>
  How a run can stop without returning: \<open>Fatal msg\<close> is a call of the library's
  \<^verbatim>\<open>error(msg)\<close>, \<open>NoMemory\<close> is the allocator's own fatal failure, and \<open>MemoryFault\<close>
  stands for an access that C leaves undefined (a \<open>NULL\<close>, wild or freed pointer
  dereferenced, a slot outside its block). The model halts there instead of guessing.
\<close>

datatype failure = Fatal string | NoMemory | MemoryFault

datatype IteratorFn = NewVectorIterator

record VectorCDT =
  header :: "IteratorFn option"
  elements :: "addr pointer"
  count :: int
  capacity :: int

record 'a heap =
  structs :: "addr \<rightharpoonup> VectorCDT"
  arrays :: "addr \<rightharpoonup> 'a pointer list"
  iterators :: "addr \<rightharpoonup> 'a pointer list"
  next_addr :: addr

text \<open>
  A program takes the store and either halts (\<open>Inl\<close>, with the failure and the store as it
  was at that moment) or returns a value and the new store (\<open>Inr\<close>).
\<close>

type_synonym ('a, 'r) prog = "'a heap \<Rightarrow> (failure \<times> 'a heap) + ('r \<times> 'a heap)"

definition ret :: "'r \<Rightarrow> ('a, 'r) prog" where
  "ret x h = Inr (x, h)"

definition halt :: "failure \<Rightarrow> ('a, 'r) prog" where
  "halt e h = Inl (e, h)"

definition bind :: "('a, 'r) prog \<Rightarrow> ('r \<Rightarrow> ('a, 's) prog) \<Rightarrow> ('a, 's) prog" where
  "bind m f h = (case m h of Inl e \<Rightarrow> Inl e | Inr (x, h') \<Rightarrow> f x h')"

subsection \<open>Machine integers\<close>

text \<open>
  \<^verbatim>\<open>count\<close>, \<^verbatim>\<open>capacity\<close> and every index are C \<^verbatim>\<open>int\<close>s, taken as 32 bits wide. They are
  modelled as \<open>int\<close>, and \<open>int32\<close> is written where the source computes a value that can
  leave the range: the two's complement wrap-around that the usual compilers give.
  Loop counters stay below a bound that is itself an \<^verbatim>\<open>int\<close>, so their steps cannot wrap.
\<close>

definition INT_MAX :: int where
  "INT_MAX = 2147483647"

definition int32 :: "int \<Rightarrow> int" where
  "int32 x = (x + 2147483648) mod 4294967296 - 2147483648"

definition INITIAL_CAPACITY :: int where
  "INITIAL_CAPACITY = 10"

subsection \<open>The collaborators of \<^verbatim>\<open>cslib.h\<close>\<close>

text \<open>
  Modelled from the spec: the fatal error reporter \<^verbatim>\<open>error\<close> of \<^verbatim>\<open>cslib.h\<close>, which is not
  among the sources. It never returns.
\<close>

definition error :: "string \<Rightarrow> ('a, 'r) prog" where
  "error msg = halt (Fatal msg)"

text \<open>
  Modelled from the spec: the block allocator (\<^verbatim>\<open>newArray\<close>, \<^verbatim>\<open>newBlock\<close>, \<^verbatim>\<open>freeBlock\<close> of
  \<^verbatim>\<open>cslib.h\<close>), which is not among the sources. A request returns a block of exactly the
  requested number of slots, with indeterminate contents, at an address that is not in
  use; a failure to allocate is fatal inside the allocator. The only request the model
  refuses is one for a negative number of slots, whose byte size is beyond any address
  space once C has converted it to \<^verbatim>\<open>size_t\<close>.
\<close>

definition newArray :: "int \<Rightarrow> ('a, addr pointer) prog" where
  "newArray n h =
     (if n < 0 then Inl (NoMemory, h)
      else Inr (Ptr (next_addr h),
                h\<lparr>arrays := (arrays h)(next_addr h \<mapsto> replicate (nat n) Wild),
                  next_addr := Suc (next_addr h)\<rparr>))"

definition newBlock :: "('a, addr pointer) prog" where
  "newBlock h =
     Inr (Ptr (next_addr h),
          h\<lparr>structs := (structs h)(next_addr h \<mapsto>
                 \<lparr>header = None, elements = Wild, count = 0, capacity = 0\<rparr>),
            next_addr := Suc (next_addr h)\<rparr>)"

definition freeBlock :: "addr pointer \<Rightarrow> ('a, unit) prog" where
  "freeBlock p h =
     (case p of
        Ptr b \<Rightarrow> (case arrays h b of
                    Some xs \<Rightarrow> Inr ((), h\<lparr>arrays := (arrays h)(b := None)\<rparr>)
                  | None \<Rightarrow> Inl (MemoryFault, h))
      | _ \<Rightarrow> Inl (MemoryFault, h))"

subsection \<open>Reading and writing through pointers\<close>

text \<open>\<^verbatim>\<open>vector->f\<close> as a value, and \<^verbatim>\<open>vector->f = ...\<close>.\<close>

definition getField :: "(VectorCDT \<Rightarrow> 'b) \<Rightarrow> addr pointer \<Rightarrow> ('a, 'b) prog" where
  "getField f vector h =
     (case vector of
        Ptr a \<Rightarrow> (case structs h a of
                    Some s \<Rightarrow> Inr (f s, h)
                  | None \<Rightarrow> Inl (MemoryFault, h))
      | _ \<Rightarrow> Inl (MemoryFault, h))"

definition setField :: "(VectorCDT \<Rightarrow> VectorCDT) \<Rightarrow> addr pointer \<Rightarrow> ('a, unit) prog" where
  "setField upd vector h =
     (case vector of
        Ptr a \<Rightarrow> (case structs h a of
                    Some s \<Rightarrow> Inr ((), h\<lparr>structs := (structs h)(a \<mapsto> upd s)\<rparr>)
                  | None \<Rightarrow> Inl (MemoryFault, h))
      | _ \<Rightarrow> Inl (MemoryFault, h))"

text \<open>\<^verbatim>\<open>array[i]\<close> as a value, and \<^verbatim>\<open>array[i] = v\<close>; a slot outside the block is a fault.\<close>

definition readSlot :: "addr pointer \<Rightarrow> int \<Rightarrow> ('a, 'a pointer) prog" where
  "readSlot array i h =
     (case array of
        Ptr b \<Rightarrow> (case arrays h b of
                    Some xs \<Rightarrow> if 0 \<le> i \<and> i < int (length xs)
                               then Inr (xs ! nat i, h) else Inl (MemoryFault, h)
                  | None \<Rightarrow> Inl (MemoryFault, h))
      | _ \<Rightarrow> Inl (MemoryFault, h))"

definition writeSlot :: "addr pointer \<Rightarrow> int \<Rightarrow> 'a pointer \<Rightarrow> ('a, unit) prog" where
  "writeSlot array i v h =
     (case array of
        Ptr b \<Rightarrow> (case arrays h b of
                    Some xs \<Rightarrow> if 0 \<le> i \<and> i < int (length xs)
                               then Inr ((), h\<lparr>arrays := (arrays h)(b \<mapsto> xs[nat i := v])\<rparr>)
                               else Inl (MemoryFault, h)
                  | None \<Rightarrow> Inl (MemoryFault, h))
      | _ \<Rightarrow> Inl (MemoryFault, h))"

subsection \<open>The iterator facility of \<^verbatim>\<open>iterator.h\<close> and \<^verbatim>\<open>itertype.h\<close>\<close>

text \<open>
  Modelled from the spec: \<^verbatim>\<open>enableIteration\<close>, \<^verbatim>\<open>newListIterator\<close>, \<^verbatim>\<open>addToIteratorList\<close>,
  the generic \<^verbatim>\<open>newIterator\<close> and \<^verbatim>\<open>stepIterator\<close>, none of which is among the sources.
  \<^verbatim>\<open>enableIteration\<close> registers the factory in the container's header; a list iterator
  owns a list of element values; \<^verbatim>\<open>addToIteratorList\<close> copies the value that its
  argument points to onto the end of that list (the vector passes no comparison
  function); \<^verbatim>\<open>stepIterator\<close> hands out the first remaining value, or reports that none
  is left.
\<close>

definition enableIteration :: "addr pointer \<Rightarrow> IteratorFn \<Rightarrow> ('a, unit) prog" where
  "enableIteration collection fn = setField (\<lambda>s. s\<lparr>header := Some fn\<rparr>) collection"




section \<open>The vector\<close>

subsection \<open>Loops\<close>

text \<open>
  \<^verbatim>\<open>for (i = ...; i < n; i++) dst[i] = src[i];\<close> is the loop of \<^verbatim>\<open>arrayToVector\<close>,
  \<^verbatim>\<open>vectorToArray\<close>, \<^verbatim>\<open>cloneVector\<close> and \<^verbatim>\<open>expandCapacity\<close>. Where the source writes the
  bound as \<^verbatim>\<open>vector->count\<close> and a buffer as \<^verbatim>\<open>vector->elements\<close>, the body stores into
  array slots only, so both are the same at every iteration and are read once.
\<close>

function copySlots :: "addr pointer \<Rightarrow> addr pointer \<Rightarrow> int \<Rightarrow> int \<Rightarrow> ('a, unit) prog" where
  "copySlots dst src i n h =
     (if i < n then
        (case readSlot src i h of
           Inl e \<Rightarrow> Inl e
         | Inr (x, h1) \<Rightarrow>
             (case writeSlot dst i x h1 of
                Inl e \<Rightarrow> Inl e
              | Inr (u, h2) \<Rightarrow> copySlots dst src (i + 1) n h2))
      else Inr ((), h))"
  by pat_completeness auto
termination
  by (relation "measure (\<lambda>(dst, src, i, n, h). nat (n - i))") auto

declare copySlots.simps [simp del]

text \<open>
  The loop of \<^verbatim>\<open>insert\<close>:
  \<^verbatim>\<open>for (i = vector->count; i > index; i--) elements[i] = elements[i - 1];\<close>
\<close>

function shiftUp :: "addr pointer \<Rightarrow> int \<Rightarrow> int \<Rightarrow> ('a, unit) prog" where
  "shiftUp elems i index h =
     (if i > index then
        (case readSlot elems (i - 1) h of
           Inl e \<Rightarrow> Inl e
         | Inr (x, h1) \<Rightarrow>
             (case writeSlot elems i x h1 of
                Inl e \<Rightarrow> Inl e
              | Inr (u, h2) \<Rightarrow> shiftUp elems (i - 1) index h2))
      else Inr ((), h))"
  by pat_completeness auto
termination
  by (relation "measure (\<lambda>(elems, i, index, h). nat (i - index))") auto

declare shiftUp.simps [simp del]

text \<open>
  The loop of \<^verbatim>\<open>removeVector\<close>:
  \<^verbatim>\<open>for (i = index; i < vector->count; i++) elements[i] = elements[i + 1];\<close>
\<close>

function shiftDown :: "addr pointer \<Rightarrow> int \<Rightarrow> int \<Rightarrow> ('a, unit) prog" where
  "shiftDown elems i n h =
     (if i < n then
        (case readSlot elems (i + 1) h of
           Inl e \<Rightarrow> Inl e
         | Inr (x, h1) \<Rightarrow>
             (case writeSlot elems i x h1 of
                Inl e \<Rightarrow> Inl e
              | Inr (u, h2) \<Rightarrow> shiftDown elems (i + 1) n h2))
      else Inr ((), h))"
  by pat_completeness auto
termination
  by (relation "measure (\<lambda>(elems, i, n, h). nat (n - i))") auto

declare shiftDown.simps [simp del]



subsection \<open>Private functions\<close>

definition expandCapacity :: "addr pointer \<Rightarrow> ('a, unit) prog" where
  "expandCapacity vector =
     bind (getField capacity vector) (\<lambda>c.
     let newCapacity = int32 (c * 2) in
     bind (newArray newCapacity) (\<lambda>array.
     bind (getField count vector) (\<lambda>n.
     bind (getField elements vector) (\<lambda>old.
     bind (copySlots array old 0 n) (\<lambda>_.
     bind (freeBlock old) (\<lambda>_.
     bind (setField (\<lambda>s. s\<lparr>elements := array\<rparr>) vector) (\<lambda>_.
     setField (\<lambda>s. s\<lparr>capacity := newCapacity\<rparr>) vector)))))))"


subsection \<open>Exported entries\<close>

definition newVector :: "('a, addr pointer) prog" where
  "newVector =
     bind newBlock (\<lambda>vector.
     bind (enableIteration vector NewVectorIterator) (\<lambda>_.
     bind (newArray INITIAL_CAPACITY) (\<lambda>array.
     bind (setField (\<lambda>s. s\<lparr>elements := array\<rparr>) vector) (\<lambda>_.
     bind (setField (\<lambda>s. s\<lparr>count := 0\<rparr>) vector) (\<lambda>_.
     bind (setField (\<lambda>s. s\<lparr>capacity := INITIAL_CAPACITY\<rparr>) vector) (\<lambda>_.
     ret vector))))))"

definition arrayToVector :: "addr pointer \<Rightarrow> int \<Rightarrow> ('a, addr pointer) prog" where
  "arrayToVector array n =
     (if array = NULL then ret NULL
      else
        bind newBlock (\<lambda>vector.
        bind (enableIteration vector NewVectorIterator) (\<lambda>_.
        bind (newArray n) (\<lambda>elems.
        bind (setField (\<lambda>s. s\<lparr>elements := elems\<rparr>) vector) (\<lambda>_.
        bind (setField (\<lambda>s. s\<lparr>count := n\<rparr>) vector) (\<lambda>_.
        bind (setField (\<lambda>s. s\<lparr>capacity := n\<rparr>) vector) (\<lambda>_.
        bind (copySlots elems array 0 n) (\<lambda>_.
        ret vector))))))))"

definition vectorToArray :: "addr pointer \<Rightarrow> ('a, addr pointer) prog" where
  "vectorToArray vector =
     (if vector = NULL then ret NULL
      else
        bind (getField count vector) (\<lambda>n.
        bind (newArray (int32 (n + 1))) (\<lambda>array.
        bind (getField elements vector) (\<lambda>elems.
        bind (copySlots array elems 0 n) (\<lambda>_.
        bind (writeSlot array n NULL) (\<lambda>_.
        ret array))))))"

definition isEmptyVector :: "addr pointer \<Rightarrow> ('a, bool) prog" where
  "isEmptyVector vector = bind (getField count vector) (\<lambda>c. ret (c = 0))"

definition sizeVector :: "addr pointer \<Rightarrow> ('a, int) prog" where
  "sizeVector vector = getField count vector"

definition clearVector :: "addr pointer \<Rightarrow> ('a, unit) prog" where
  "clearVector vector = setField (\<lambda>s. s\<lparr>count := 0\<rparr>) vector"

definition cloneVector :: "addr pointer \<Rightarrow> ('a, addr pointer) prog" where
  "cloneVector vector =
     bind newBlock (\<lambda>newvec.
     bind (enableIteration newvec NewVectorIterator) (\<lambda>_.
     bind (getField count vector) (\<lambda>n.
     bind (setField (\<lambda>s. s\<lparr>count := n\<rparr>) newvec) (\<lambda>_.
     bind (getField capacity vector) (\<lambda>c.
     bind (setField (\<lambda>s. s\<lparr>capacity := c\<rparr>) newvec) (\<lambda>_.
     bind (newArray c) (\<lambda>array.
     bind (setField (\<lambda>s. s\<lparr>elements := array\<rparr>) newvec) (\<lambda>_.
     bind (getField elements vector) (\<lambda>elems.
     bind (copySlots array elems 0 n) (\<lambda>_.
     ret newvec))))))))))"

definition getVector :: "addr pointer \<Rightarrow> int \<Rightarrow> ('a, 'a pointer) prog" where
  "getVector vector index =
     bind (getField count vector) (\<lambda>c.
     if index < 0 \<or> index \<ge> c then error ''get: Index value out of range''
     else bind (getField elements vector) (\<lambda>elems. readSlot elems index))"

definition setVector :: "addr pointer \<Rightarrow> int \<Rightarrow> 'a pointer \<Rightarrow> ('a, unit) prog" where
  "setVector vector index val =
     bind (getField count vector) (\<lambda>c.
     if index < 0 \<or> index \<ge> c then error ''get: Index value out of range''
     else bind (getField elements vector) (\<lambda>elems. writeSlot elems index val))"

definition addVector :: "addr pointer \<Rightarrow> 'a pointer \<Rightarrow> ('a, unit) prog" where
  "addVector vector val =
     bind (getField count vector) (\<lambda>c.
     bind (getField capacity vector) (\<lambda>cap.
     bind (if c = cap then expandCapacity vector else ret ()) (\<lambda>_.
     bind (getField elements vector) (\<lambda>elems.
     bind (getField count vector) (\<lambda>k.
     bind (writeSlot elems k val) (\<lambda>_.
     setField (\<lambda>s. s\<lparr>count := int32 (k + 1)\<rparr>) vector))))))"

definition insertVector :: "addr pointer \<Rightarrow> int \<Rightarrow> 'a pointer \<Rightarrow> ('a, unit) prog" where
  "insertVector vector index val =
     bind (getField count vector) (\<lambda>c.
     if index < 0 \<or> index > c then error ''insert: Index value out of range''
     else
       bind (getField capacity vector) (\<lambda>cap.
       bind (if c = cap then expandCapacity vector else ret ()) (\<lambda>_.
       bind (getField elements vector) (\<lambda>elems.
       bind (getField count vector) (\<lambda>k.
       bind (shiftUp elems k index) (\<lambda>_.
       bind (writeSlot elems index val) (\<lambda>_.
       setField (\<lambda>s. s\<lparr>count := int32 (k + 1)\<rparr>) vector)))))))"

definition removeVector :: "addr pointer \<Rightarrow> int \<Rightarrow> ('a, unit) prog" where
  "removeVector vector index =
     bind (getField count vector) (\<lambda>c.
     if index < 0 \<or> index \<ge> c then error ''remove: Index value out of range''
     else
       bind (setField (\<lambda>s. s\<lparr>count := int32 (c - 1)\<rparr>) vector) (\<lambda>_.
       bind (getField count vector) (\<lambda>n.
       bind (getField elements vector) (\<lambda>elems.
       shiftDown elems index n))))"

subsection \<open>Generic iteration\<close>





section \<open>Observing a vector\<close>

text \<open>What the caller sees of a call: the value returned or the failure, not the store.\<close>

definition valueOf :: "('e \<times> 'h) + ('r \<times> 'h) \<Rightarrow> 'e + 'r" where
  "valueOf r = map_sum fst fst r"

text \<open>The store in which a call ended, whether it returned or halted.\<close>

definition heapOf :: "('e \<times> 'h) + ('r \<times> 'h) \<Rightarrow> 'h" where
  "heapOf r = (case r of Inl (e, h) \<Rightarrow> h | Inr (x, h) \<Rightarrow> h)"

text \<open>
  The element sequence of a vector as its interface shows it: what \<^verbatim>\<open>getVector\<close> returns
  at the indices \<open>0\<close>, ..., \<^verbatim>\<open>sizeVector\<close> \<open>- 1\<close>, in that order.
\<close>

definition elementSeq :: "'a heap \<Rightarrow> addr pointer \<Rightarrow> (failure + 'a pointer) list option" where
  "elementSeq h vector =
     (case sizeVector vector h of
        Inl e \<Rightarrow> None
      | Inr (n, h1) \<Rightarrow> Some (map (\<lambda>i. valueOf (getVector vector (int i) h)) [0..<nat n]))"

text \<open>The observable state of a vector: its size, its capacity and its element sequence.\<close>

definition observe ::
  "'a heap \<Rightarrow> addr pointer \<Rightarrow> (failure + int) \<times> (failure + int) \<times> (failure + 'a pointer) list option" where
  "observe h vector =
     (valueOf (sizeVector vector h), valueOf (getField capacity vector h), elementSeq h vector)"

text \<open>The sequence of \<open>N\<close> appends of the testable properties.\<close>

fun addAll :: "addr pointer \<Rightarrow> 'a pointer list \<Rightarrow> ('a, unit) prog" where
  "addAll vector [] = ret ()"
| "addAll vector (x # xs) = bind (addVector vector x) (\<lambda>_. addAll vector xs)"

text \<open>
  The smallest power-of-two multiple of \<open>c\<close> that is at least \<open>n\<close>, computed by doubling.
\<close>

function leastDoubling :: "int \<Rightarrow> int \<Rightarrow> int" where
  "leastDoubling c n = (if 0 < c \<and> c < n then leastDoubling (2 * c) n else c)"
  by pat_completeness auto
termination
  by (relation "measure (\<lambda>(c, n). nat (n - c))") auto

declare leastDoubling.simps [simp del]

text \<open>Insertion followed by removal at the same index.\<close>

definition insertThenRemove :: "addr pointer \<Rightarrow> int \<Rightarrow> 'a pointer \<Rightarrow> ('a, unit) prog" where
  "insertThenRemove vector index x =
     bind (insertVector vector index x) (\<lambda>_. removeVector vector index)"

text \<open>The mutations of the clone-independence and snapshot properties.\<close>

datatype 'a mutation =
  Set int "'a pointer" | Append "'a pointer" | Remove int | Insert int "'a pointer" | Clear

fun mutate :: "addr pointer \<Rightarrow> 'a mutation \<Rightarrow> ('a, unit) prog" where
  "mutate vector (Set i x) = setVector vector i x"
| "mutate vector (Append x) = addVector vector x"
| "mutate vector (Remove i) = removeVector vector i"
| "mutate vector (Insert i x) = insertVector vector i x"
| "mutate vector Clear = clearVector vector"

text \<open>A sequence of mutations of one vector; it stops where one of them halts.\<close>

fun mutateAll :: "addr pointer \<Rightarrow> 'a mutation list \<Rightarrow> ('a, unit) prog" where
  "mutateAll vector [] = ret ()"
| "mutateAll vector (m # ms) = bind (mutate vector m) (\<lambda>_. mutateAll vector ms)"

section \<open>Well-formed stores and vectors\<close>

text \<open>The allocator hands out addresses from \<open>next_addr\<close> on; nothing lives there yet.\<close>

definition heap_ok :: "'a heap \<Rightarrow> bool" where
  "heap_ok h \<longleftrightarrow>
     (\<forall>a. next_addr h \<le> a \<longrightarrow> structs h a = None \<and> arrays h a = None \<and> iterators h a = None)"

text \<open>
  \<open>vector\<close> points to a live struct whose buffer is a live block of \<^verbatim>\<open>capacity\<close> slots,
  with \<open>0 \<le> count \<le> capacity\<close> and the capacity within the range of \<^verbatim>\<open>int\<close>.
\<close>

definition vector_ok :: "'a heap \<Rightarrow> addr pointer \<Rightarrow> bool" where
  "vector_ok h vector =
     (case vector of
        Ptr a \<Rightarrow>
          (case structs h a of
             Some s \<Rightarrow>
               (case elements s of
                  Ptr b \<Rightarrow>
                    (case arrays h b of
                       Some xs \<Rightarrow> 0 \<le> count s \<and> count s \<le> capacity s
                                  \<and> capacity s = int (length xs) \<and> capacity s \<le> INT_MAX
                     | None \<Rightarrow> False)
                | _ \<Rightarrow> False)
           | None \<Rightarrow> False)
      | _ \<Rightarrow> False)"

text \<open>The same, with the parts named: the struct \<open>s\<close> at \<open>a\<close>, the buffer \<open>xs\<close> at \<open>b\<close>.\<close>

definition vec :: "'a heap \<Rightarrow> addr \<Rightarrow> VectorCDT \<Rightarrow> addr \<Rightarrow> 'a pointer list \<Rightarrow> bool" where
  "vec h a s b xs \<longleftrightarrow>
     structs h a = Some s \<and> elements s = Ptr b \<and> arrays h b = Some xs
     \<and> 0 \<le> count s \<and> count s \<le> capacity s \<and> capacity s = int (length xs)
     \<and> capacity s \<le> INT_MAX"

text \<open>
  What a call on the vector at \<open>a\<close> with buffer \<open>b\<close> may have touched between the stores
  \<open>h\<close> and \<open>h'\<close>: that struct, that buffer, and blocks allocated since.
\<close>

definition frame :: "addr \<Rightarrow> addr \<Rightarrow> 'a heap \<Rightarrow> 'a heap \<Rightarrow> bool" where
  "frame a b h h' \<longleftrightarrow>
     (\<forall>a'. a' \<noteq> a \<longrightarrow> structs h' a' = structs h a')
     \<and> (\<forall>b'. b' \<noteq> b \<and> b' < next_addr h \<longrightarrow> arrays h' b' = arrays h b')
     \<and> iterators h' = iterators h
     \<and> next_addr h \<le> next_addr h'"

section \<open>Sample stores\<close>

definition emptyHeap :: "'a heap" where
  "emptyHeap = \<lparr>structs = Map.empty, arrays = Map.empty, iterators = Map.empty, next_addr = 0\<rparr>"

text \<open>A caller's array of \<open>n\<close> null references at address 0, and nothing else.\<close>

definition arrayHeap :: "nat \<Rightarrow> 'a heap" where
  "arrayHeap n =
     \<lparr>structs = Map.empty, arrays = [0 \<mapsto> replicate n NULL], iterators = Map.empty,
      next_addr = 1\<rparr>"

text \<open>A full vector at address 0: two elements in a buffer of two slots at address 1.\<close>

definition fullHeap :: "nat heap" where
  "fullHeap =
     \<lparr>structs = [0 \<mapsto> \<lparr>header = Some NewVectorIterator, elements = Ptr 1,
                          count = 2, capacity = 2\<rparr>],
      arrays = [1 \<mapsto> [Ptr 5, Ptr 6]], iterators = Map.empty, next_addr = 2\<rparr>"

section \<open>The loops\<close>

lemma heap_arrays_triv: "arrays h b = Some ys \<Longrightarrow> h\<lparr>arrays := (arrays h)(b \<mapsto> ys)\<rparr> = h"
  by (simp add: map_upd_triv)

lemma copySlots_nth:
  assumes "dst = Ptr b" "src = Ptr a" "a \<noteq> b"
    "arrays h a = Some xs" "arrays h b = Some ys"
    "0 \<le> i" "n \<le> int (length xs)" "n \<le> int (length ys)"
  shows "\<exists>zs. copySlots dst src i n h = Inr ((), h\<lparr>arrays := (arrays h)(b \<mapsto> zs)\<rparr>)
            \<and> length zs = length ys
            \<and> (\<forall>k<length ys. zs ! k = (if i \<le> int k \<and> int k < n then xs ! k else ys ! k))"
  using assms
proof (induction dst src i n h arbitrary: ys rule: copySlots.induct)
  case (1 dst src i n h)
  show ?case
  proof (cases "i < n")
    case False
    have eq: "h\<lparr>arrays := (arrays h)(b \<mapsto> ys)\<rparr> = h"
      using "1.prems" by (simp add: heap_arrays_triv)
    have "copySlots dst src i n h = Inr ((), h)"
      using False by (simp add: copySlots.simps)
    then have "copySlots dst src i n h = Inr ((), h\<lparr>arrays := (arrays h)(b \<mapsto> ys)\<rparr>)"
      by (simp only: eq)
    moreover have "\<forall>k<length ys. ys ! k = (if i \<le> int k \<and> int k < n then xs ! k else ys ! k)"
      using False by auto
    ultimately show ?thesis
      by blast
  next
    case True
    let ?h2 = "h\<lparr>arrays := (arrays h)(b \<mapsto> ys[nat i := xs ! nat i])\<rparr>"
    have rd: "readSlot src i h = Inr (xs ! nat i, h)"
      using True "1.prems" by (simp add: readSlot_def)
    have wr: "writeSlot dst i (xs ! nat i) h = Inr ((), ?h2)"
      using True "1.prems" by (simp add: writeSlot_def)
    have "\<exists>zs. copySlots dst src (i + 1) n ?h2 = Inr ((), ?h2\<lparr>arrays := (arrays ?h2)(b \<mapsto> zs)\<rparr>)
            \<and> length zs = length (ys[nat i := xs ! nat i])
            \<and> (\<forall>k<length (ys[nat i := xs ! nat i]). zs ! k =
                 (if i + 1 \<le> int k \<and> int k < n then xs ! k else (ys[nat i := xs ! nat i]) ! k))"
      using True "1.prems"
      by (intro "1.IH"[OF True rd refl wr refl]) simp_all
    then obtain zs where zs:
      "copySlots dst src (i + 1) n ?h2 = Inr ((), ?h2\<lparr>arrays := (arrays ?h2)(b \<mapsto> zs)\<rparr>)"
      "length zs = length ys"
      "\<forall>k<length ys. zs ! k =
                 (if i + 1 \<le> int k \<and> int k < n then xs ! k else (ys[nat i := xs ! nat i]) ! k)"
      by auto
    have run: "copySlots dst src i n h = Inr ((), h\<lparr>arrays := (arrays h)(b \<mapsto> zs)\<rparr>)"
      using True rd wr zs(1) by (simp add: copySlots.simps[of dst src i])
    have "\<forall>k<length ys. zs ! k = (if i \<le> int k \<and> int k < n then xs ! k else ys ! k)"
    proof (intro allI impI)
      fix k assume k: "k < length ys"
      show "zs ! k = (if i \<le> int k \<and> int k < n then xs ! k else ys ! k)"
      proof (cases "int k = i")
        case True
        then have "nat i = k" by simp
        then show ?thesis using zs(3) k \<open>i < n\<close> True by simp
      next
        case False
        then have "nat i \<noteq> k" using "1.prems" by auto
        then show ?thesis using zs(3) k False by auto
      qed
    qed
    with run zs(2) show ?thesis by blast
  qed
qed

lemma copySlots_prefix:
  assumes "a \<noteq> b" "arrays h a = Some xs" "arrays h b = Some ys"
    "0 \<le> n" "n \<le> int (length xs)" "n \<le> int (length ys)"
  shows "copySlots (Ptr b) (Ptr a) 0 n h =
           Inr ((), h\<lparr>arrays := (arrays h)(b \<mapsto> take (nat n) xs @ drop (nat n) ys)\<rparr>)"
proof -
  obtain zs where zs:
    "copySlots (Ptr b) (Ptr a) 0 n h = Inr ((), h\<lparr>arrays := (arrays h)(b \<mapsto> zs)\<rparr>)"
    "length zs = length ys"
    "\<forall>k<length ys. zs ! k = (if 0 \<le> int k \<and> int k < n then xs ! k else ys ! k)"
    using copySlots_nth[OF refl refl assms(1,2,3) order_refl assms(5,6)] by blast
  have "zs = take (nat n) xs @ drop (nat n) ys"
  proof (rule nth_equalityI)
    show "length zs = length (take (nat n) xs @ drop (nat n) ys)"
      using zs(2) assms by simp
  next
    fix k assume k: "k < length zs"
    have len: "length (take (nat n) xs) = nat n"
      using assms by simp
    show "zs ! k = (take (nat n) xs @ drop (nat n) ys) ! k"
    proof (cases "k < nat n")
      case True
      then have "int k < n" by linarith
      then show ?thesis using zs(2,3) k len True by (simp add: nth_append)
    next
      case False
      then have "zs ! k = ys ! k" using zs(2,3) k by auto
      moreover have "(take (nat n) xs @ drop (nat n) ys) ! k = ys ! (nat n + (k - nat n))"
        using False len assms by (simp add: nth_append)
      ultimately show ?thesis using False by simp
    qed
  qed
  with zs(1) show ?thesis by simp
qed


lemma shiftUp_nth:
  assumes "elems = Ptr b" "arrays h b = Some xs" "0 \<le> index" "i < int (length xs)"
  shows "\<exists>zs. shiftUp elems i index h = Inr ((), h\<lparr>arrays := (arrays h)(b \<mapsto> zs)\<rparr>)
            \<and> length zs = length xs
            \<and> (\<forall>k<length xs. zs ! k = (if index < int k \<and> int k \<le> i then xs ! (k - 1) else xs ! k))"
  using assms
proof (induction elems i index h arbitrary: xs rule: shiftUp.induct)
  case (1 elems i index h)
  show ?case
  proof (cases "i > index")
    case False
    have eq: "h\<lparr>arrays := (arrays h)(b \<mapsto> xs)\<rparr> = h"
      using "1.prems" by (simp add: heap_arrays_triv)
    have "shiftUp elems i index h = Inr ((), h)"
      using False by (simp add: shiftUp.simps)
    then have "shiftUp elems i index h = Inr ((), h\<lparr>arrays := (arrays h)(b \<mapsto> xs)\<rparr>)"
      by (simp only: eq)
    moreover have "\<forall>k<length xs. xs ! k = (if index < int k \<and> int k \<le> i then xs ! (k - 1) else xs ! k)"
      using False by auto
    ultimately show ?thesis
      by blast
  next
    case True
    let ?xs' = "xs[nat i := xs ! nat (i - 1)]"
    let ?h2 = "h\<lparr>arrays := (arrays h)(b \<mapsto> ?xs')\<rparr>"
    have rd: "readSlot elems (i - 1) h = Inr (xs ! nat (i - 1), h)"
      using True "1.prems" by (simp add: readSlot_def)
    have wr: "writeSlot elems i (xs ! nat (i - 1)) h = Inr ((), ?h2)"
      using True "1.prems" by (simp add: writeSlot_def)
    have "\<exists>zs. shiftUp elems (i - 1) index ?h2 = Inr ((), ?h2\<lparr>arrays := (arrays ?h2)(b \<mapsto> zs)\<rparr>)
            \<and> length zs = length ?xs'
            \<and> (\<forall>k<length ?xs'. zs ! k =
                 (if index < int k \<and> int k \<le> i - 1 then ?xs' ! (k - 1) else ?xs' ! k))"
      using True "1.prems"
      by (intro "1.IH"[OF True rd refl wr refl]) simp_all
    then obtain zs where zs:
      "shiftUp elems (i - 1) index ?h2 = Inr ((), ?h2\<lparr>arrays := (arrays ?h2)(b \<mapsto> zs)\<rparr>)"
      "length zs = length xs"
      "\<forall>k<length xs. zs ! k =
                 (if index < int k \<and> int k \<le> i - 1 then ?xs' ! (k - 1) else ?xs' ! k)"
      by auto
    have run: "shiftUp elems i index h = Inr ((), h\<lparr>arrays := (arrays h)(b \<mapsto> zs)\<rparr>)"
      using True rd wr zs(1) by (simp add: shiftUp.simps[of elems i])
    have "\<forall>k<length xs. zs ! k = (if index < int k \<and> int k \<le> i then xs ! (k - 1) else xs ! k)"
    proof (intro allI impI)
      fix k assume k: "k < length xs"
      show "zs ! k = (if index < int k \<and> int k \<le> i then xs ! (k - 1) else xs ! k)"
      proof (cases "int k = i")
        case True
        then have "nat i = k" "nat (i - 1) = k - 1" by simp_all
        then show ?thesis using zs(3) k \<open>index < i\<close> True by simp
      next
        case False
        then have ne: "nat i \<noteq> k" using "1.prems" True by auto
        show ?thesis
        proof (cases "index < int k \<and> int k \<le> i - 1")
          case True
          then have "nat i \<noteq> k - 1" using "1.prems" by auto
          then show ?thesis using zs(3) k True by simp
        next
          case False
          then show ?thesis using zs(3) k ne \<open>int k \<noteq> i\<close> by auto
        qed
      qed
    qed
    with run zs(2) show ?thesis by blast
  qed
qed

lemma shiftDown_nth:
  assumes "elems = Ptr b" "arrays h b = Some xs" "0 \<le> i" "n < int (length xs)"
  shows "\<exists>zs. shiftDown elems i n h = Inr ((), h\<lparr>arrays := (arrays h)(b \<mapsto> zs)\<rparr>)
            \<and> length zs = length xs
            \<and> (\<forall>k<length xs. zs ! k = (if i \<le> int k \<and> int k < n then xs ! (k + 1) else xs ! k))"
  using assms
proof (induction elems i n h arbitrary: xs rule: shiftDown.induct)
  case (1 elems i n h)
  show ?case
  proof (cases "i < n")
    case False
    have eq: "h\<lparr>arrays := (arrays h)(b \<mapsto> xs)\<rparr> = h"
      using "1.prems" by (simp add: heap_arrays_triv)
    have "shiftDown elems i n h = Inr ((), h)"
      using False by (simp add: shiftDown.simps)
    then have "shiftDown elems i n h = Inr ((), h\<lparr>arrays := (arrays h)(b \<mapsto> xs)\<rparr>)"
      by (simp only: eq)
    moreover have "\<forall>k<length xs. xs ! k = (if i \<le> int k \<and> int k < n then xs ! (k + 1) else xs ! k)"
      using False by auto
    ultimately show ?thesis
      by blast
  next
    case True
    let ?xs' = "xs[nat i := xs ! nat (i + 1)]"
    let ?h2 = "h\<lparr>arrays := (arrays h)(b \<mapsto> ?xs')\<rparr>"
    have rd: "readSlot elems (i + 1) h = Inr (xs ! nat (i + 1), h)"
      using True "1.prems" by (simp add: readSlot_def)
    have wr: "writeSlot elems i (xs ! nat (i + 1)) h = Inr ((), ?h2)"
      using True "1.prems" by (simp add: writeSlot_def)
    have "\<exists>zs. shiftDown elems (i + 1) n ?h2 = Inr ((), ?h2\<lparr>arrays := (arrays ?h2)(b \<mapsto> zs)\<rparr>)
            \<and> length zs = length ?xs'
            \<and> (\<forall>k<length ?xs'. zs ! k =
                 (if i + 1 \<le> int k \<and> int k < n then ?xs' ! (k + 1) else ?xs' ! k))"
      using True "1.prems"
      by (intro "1.IH"[OF True rd refl wr refl]) simp_all
    then obtain zs where zs:
      "shiftDown elems (i + 1) n ?h2 = Inr ((), ?h2\<lparr>arrays := (arrays ?h2)(b \<mapsto> zs)\<rparr>)"
      "length zs = length xs"
      "\<forall>k<length xs. zs ! k =
                 (if i + 1 \<le> int k \<and> int k < n then ?xs' ! (k + 1) else ?xs' ! k)"
      by auto
    have run: "shiftDown elems i n h = Inr ((), h\<lparr>arrays := (arrays h)(b \<mapsto> zs)\<rparr>)"
      using True rd wr zs(1) by (simp add: shiftDown.simps[of elems i])
    have "\<forall>k<length xs. zs ! k = (if i \<le> int k \<and> int k < n then xs ! (k + 1) else xs ! k)"
    proof (intro allI impI)
      fix k assume k: "k < length xs"
      show "zs ! k = (if i \<le> int k \<and> int k < n then xs ! (k + 1) else xs ! k)"
      proof (cases "int k = i")
        case True
        then have "nat i = k" "nat (i + 1) = k + 1" by simp_all
        then show ?thesis using zs(3) k \<open>i < n\<close> True by simp
      next
        case False
        then have ne: "nat i \<noteq> k" using "1.prems" by auto
        show ?thesis
        proof (cases "i + 1 \<le> int k \<and> int k < n")
          case True
          then have "nat i \<noteq> k + 1" using "1.prems" by auto
          then show ?thesis using zs(3) k True by simp
        next
          case False
          then show ?thesis using zs(3) k ne \<open>int k \<noteq> i\<close> by auto
        qed
      qed
    qed
    with run zs(2) show ?thesis by blast
  qed
qed



section \<open>The operations on a well-formed vector\<close>

lemma vector_ok_iff: "vector_ok h v \<longleftrightarrow> (\<exists>a s b xs. v = Ptr a \<and> vec h a s b xs)"
proof (cases v)
  case (Ptr a)
  show ?thesis
  proof (cases "structs h a")
    case None
    then show ?thesis using Ptr by (simp add: vector_ok_def vec_def)
  next
    case (Some s)
    show ?thesis
    proof (cases "elements s")
      case (Ptr b)
      then show ?thesis
        using \<open>v = Ptr a\<close> Some by (cases "arrays h b") (simp_all add: vector_ok_def vec_def)
    qed (use \<open>v = Ptr a\<close> Some in \<open>simp_all add: vector_ok_def vec_def\<close>)
  qed
qed (simp_all add: vector_ok_def)

lemma int32_id: "- 2147483648 \<le> x \<Longrightarrow> x \<le> INT_MAX \<Longrightarrow> int32 x = x"
  by (simp add: int32_def INT_MAX_def)

lemma heap_ok_fresh:
  "heap_ok h \<Longrightarrow> structs h (next_addr h) = None \<and> arrays h (next_addr h) = None \<and> iterators h (next_addr h) = None"
  by (simp add: heap_ok_def)

lemma expandCapacity_ok:
  assumes "heap_ok h" "vec h a s b xs" "capacity s * 2 \<le> INT_MAX"
  shows "\<exists>h'. expandCapacity (Ptr a) h = Inr ((), h')
           \<and> structs h' = (structs h)(a \<mapsto> s\<lparr>elements := Ptr (next_addr h), capacity := capacity s * 2\<rparr>)
           \<and> arrays h' = (arrays h)(next_addr h \<mapsto>
                 take (nat (count s)) xs @ replicate (length xs * 2 - nat (count s)) Wild, b := None)
           \<and> iterators h' = iterators h
           \<and> next_addr h' = Suc (next_addr h)"
proof -
  let ?N = "next_addr h"
  let ?h1 = "h\<lparr>arrays := (arrays h)(?N \<mapsto> replicate (nat (capacity s * 2)) Wild), next_addr := Suc ?N\<rparr>"
  have v: "structs h a = Some s" "elements s = Ptr b" "arrays h b = Some xs"
    "0 \<le> count s" "count s \<le> capacity s" "capacity s = int (length xs)"
    using assms(2) by (simp_all add: vec_def)
  have ne: "b \<noteq> ?N"
    using heap_ok_fresh[OF assms(1)] v(3) by auto
  have wrap: "int32 (capacity s * 2) = capacity s * 2"
    using v assms(3) by (intro int32_id) auto
  have alloc: "newArray (capacity s * 2) h = Inr (Ptr ?N, ?h1)"
    using v by (simp add: newArray_def)
  have copy: "copySlots (Ptr ?N) (Ptr b) 0 (count s) ?h1 =
                Inr ((), ?h1\<lparr>arrays := (arrays ?h1)(?N \<mapsto>
                   take (nat (count s)) xs @ drop (nat (count s)) (replicate (nat (capacity s * 2)) Wild))\<rparr>)"
    using v ne by (intro copySlots_prefix) auto
  show ?thesis
    using v(1,2,3,4,5) ne wrap alloc copy
    by (simp add: expandCapacity_def Let_def bind_def getField_def setField_def freeBlock_def
          fun_upd_twist v(6) nat_mult_distrib)
qed

lemma vec_live: "heap_ok h \<Longrightarrow> vec h a s b xs \<Longrightarrow> a < next_addr h \<and> b < next_addr h"
  unfolding heap_ok_def vec_def
  by (metis not_le_imp_less option.distinct(1))

lemma sizeVector_ok: "vec h a s b xs \<Longrightarrow> sizeVector (Ptr a) h = Inr (count s, h)"
  by (simp add: vec_def sizeVector_def getField_def)

lemma getVector_ok:
  "vec h a s b xs \<Longrightarrow> 0 \<le> i \<Longrightarrow> i < count s \<Longrightarrow> getVector (Ptr a) i h = Inr (xs ! nat i, h)"
  by (simp add: vec_def getVector_def getField_def bind_def readSlot_def)

lemma elementSeq_ok:
  assumes "vec h a s b xs"
  shows "elementSeq h (Ptr a) = Some (map Inr (take (nat (count s)) xs))"
proof -
  have len: "nat (count s) \<le> length xs"
    using assms unfolding vec_def by linarith
  have "map (\<lambda>i. valueOf (getVector (Ptr a) (int i) h)) [0..<nat (count s)] =
          map Inr (take (nat (count s)) xs)"
  proof (rule nth_equalityI)
    show "length (map (\<lambda>i. valueOf (getVector (Ptr a) (int i) h)) [0..<nat (count s)]) =
            length (map Inr (take (nat (count s)) xs))"
      using len by simp
  next
    fix k
    assume "k < length (map (\<lambda>i. valueOf (getVector (Ptr a) (int i) h)) [0..<nat (count s)])"
    then have k: "k < nat (count s)" by simp
    then have "getVector (Ptr a) (int k) h = Inr (xs ! k, h)"
      using getVector_ok[OF assms, of "int k"] by simp
    then show "map (\<lambda>i. valueOf (getVector (Ptr a) (int i) h)) [0..<nat (count s)] ! k =
                 map Inr (take (nat (count s)) xs) ! k"
      using k len by (simp add: valueOf_def)
  qed
  then show ?thesis
    using sizeVector_ok[OF assms] by (simp add: elementSeq_def)
qed

lemma setVector_ok:
  "vec h a s b xs \<Longrightarrow> 0 \<le> i \<Longrightarrow> i < count s \<Longrightarrow>
     setVector (Ptr a) i x h = Inr ((), h\<lparr>arrays := (arrays h)(b \<mapsto> xs[nat i := x])\<rparr>)"
  by (simp add: vec_def setVector_def getField_def bind_def writeSlot_def)

lemma addVector_room:
  assumes "vec h a s b xs" "count s < capacity s"
  shows "addVector (Ptr a) x h =
           Inr ((), h\<lparr>structs := (structs h)(a \<mapsto> s\<lparr>count := count s + 1\<rparr>),
                       arrays := (arrays h)(b \<mapsto> xs[nat (count s) := x])\<rparr>)"
proof -
  have "int32 (count s + 1) = count s + 1"
    using assms by (intro int32_id) (auto simp: vec_def)
  then show ?thesis
    using assms
    by (simp add: vec_def addVector_def getField_def setField_def bind_def ret_def writeSlot_def)
qed

lemma addVector_after_expand:
  assumes "structs h a = Some s" "count s = capacity s"
    "expandCapacity (Ptr a) h = Inr ((), h1)"
    "structs h1 a = Some s1" "count s1 \<noteq> capacity s1"
  shows "addVector (Ptr a) x h = addVector (Ptr a) x h1"
  using assms by (simp add: addVector_def bind_def getField_def ret_def)

lemma insertVector_after_expand:
  assumes "structs h a = Some s" "count s = capacity s"
    "expandCapacity (Ptr a) h = Inr ((), h1)"
    "structs h1 a = Some s1" "count s1 = count s" "count s1 \<noteq> capacity s1"
    "0 \<le> index" "index \<le> count s"
  shows "insertVector (Ptr a) index x h = insertVector (Ptr a) index x h1"
  using assms by (simp add: insertVector_def bind_def getField_def ret_def)

lemma int32_overflow: 
  assumes "INT_MAX < x" "x \<le> 2 * INT_MAX" 
  shows "int32 x = x - 4294967296"
proof -
  have "x + 2147483648 = (x - 2147483648) + 4294967296"
    by simp
  then have "(x + 2147483648) mod 4294967296 = (x - 2147483648) mod 4294967296"
    by (simp only: mod_add_self2)
  also have "\<dots> = x - 2147483648"
    using assms by (intro mod_pos_pos_trivial) (simp_all add: INT_MAX_def)
  finally show ?thesis
    by (simp add: int32_def)
qed

lemma addVector_overflow:
  assumes "vec h a s b xs" "count s = capacity s" "INT_MAX < capacity s * 2"
  shows "addVector (Ptr a) x h = Inl (NoMemory, h)"
proof -
  have "int32 (capacity s * 2) = capacity s * 2 - 4294967296"
    using assms by (intro int32_overflow) (auto simp: vec_def)
  then have "int32 (capacity s * 2) < 0"
    using assms by (simp add: vec_def INT_MAX_def)
  then show ?thesis
    using assms
    by (simp add: vec_def addVector_def expandCapacity_def Let_def getField_def bind_def newArray_def)
qed

lemma insertVector_overflow:
  assumes "vec h a s b xs" "count s = capacity s" "INT_MAX < capacity s * 2"
    "0 \<le> index" "index \<le> count s"
  shows "insertVector (Ptr a) index x h = Inl (NoMemory, h)"
proof -
  have "int32 (capacity s * 2) = capacity s * 2 - 4294967296"
    using assms by (intro int32_overflow) (auto simp: vec_def)
  then have "int32 (capacity s * 2) < 0"
    using assms by (simp add: vec_def INT_MAX_def)
  then show ?thesis
    using assms
    by (simp add: vec_def insertVector_def expandCapacity_def Let_def getField_def bind_def newArray_def)
qed

lemma shifted_insert_list:
  fixes i n :: nat
  assumes "length ws = length xs"
    "\<forall>k<length xs. ws ! k = (if i < k \<and> k \<le> n then xs ! (k - 1) else xs ! k)"
    "i \<le> n" "n < length xs"
  shows "take (Suc n) (ws[i := x]) = take i xs @ x # take (n - i) (drop i xs)"
proof (rule nth_equalityI)
  show "length (take (Suc n) (ws[i := x])) = length (take i xs @ x # take (n - i) (drop i xs))"
    using assms by simp
next
  fix k
  assume "k < length (take (Suc n) (ws[i := x]))"
  then have k: "k \<le> n" using assms by simp
  have li: "length (take i xs) = i" using assms by simp
  consider "k < i" | "k = i" | "i < k" by linarith
  then show "take (Suc n) (ws[i := x]) ! k = (take i xs @ x # take (n - i) (drop i xs)) ! k"
  proof cases
    case 1
    then show ?thesis using assms k li by (simp add: nth_append)
  next
    case 2
    then show ?thesis using assms k li by (simp add: nth_append)
  next
    case 3
    then have "(take i xs @ x # take (n - i) (drop i xs)) ! k =
                 (x # take (n - i) (drop i xs)) ! (k - i)"
      using li by (simp add: nth_append)
    also have "\<dots> = take (n - i) (drop i xs) ! (k - i - 1)"
      using 3 by (simp add: nth_Cons')
    also have "\<dots> = xs ! (i + (k - i - 1))"
      using 3 k assms by simp
    also have "i + (k - i - 1) = k - 1"
      using 3 by simp
    finally show ?thesis
      using 3 k assms by simp
  qed
qed

lemma shifted_remove_list:
  fixes i n :: nat
  assumes "length zs = length xs"
    "\<forall>k<length xs. zs ! k = (if i \<le> k \<and> k < n then xs ! (k + 1) else xs ! k)"
    "i \<le> n" "n < length xs"
  shows "take n zs = take i xs @ take (n - i) (drop (Suc i) xs)"
proof (rule nth_equalityI)
  show "length (take n zs) = length (take i xs @ take (n - i) (drop (Suc i) xs))"
    using assms by simp
next
  fix k
  assume "k < length (take n zs)"
  then have k: "k < n" using assms by simp
  have li: "length (take i xs) = i" using assms by simp
  show "take n zs ! k = (take i xs @ take (n - i) (drop (Suc i) xs)) ! k"
  proof (cases "k < i")
    case True
    then show ?thesis using assms k li by (simp add: nth_append)
  next
    case False
    then have "(take i xs @ take (n - i) (drop (Suc i) xs)) ! k =
                 take (n - i) (drop (Suc i) xs) ! (k - i)"
      using li by (simp add: nth_append)
    also have "\<dots> = xs ! (Suc i + (k - i))"
      using False k assms by simp
    also have "Suc i + (k - i) = k + 1"
      using False by simp
    finally show ?thesis
      using False k assms by simp
  qed
qed

lemma insertVector_room:
  assumes "vec h a s b xs" "count s < capacity s" "0 \<le> index" "index \<le> count s"
  shows "\<exists>zs. insertVector (Ptr a) index x h =
                Inr ((), h\<lparr>structs := (structs h)(a \<mapsto> s\<lparr>count := count s + 1\<rparr>),
                            arrays := (arrays h)(b \<mapsto> zs)\<rparr>)
            \<and> length zs = length xs
            \<and> take (nat (count s + 1)) zs =
                take (nat index) xs @ x # take (nat (count s - index)) (drop (nat index) xs)"
proof -
  have v: "structs h a = Some s" "elements s = Ptr b" "arrays h b = Some xs"
    "0 \<le> count s" "capacity s = int (length xs)" "capacity s \<le> INT_MAX"
    using assms(1) by (simp_all add: vec_def)
  have lt: "count s < int (length xs)"
    using assms(2) v(5) by simp
  obtain ws where ws:
    "shiftUp (Ptr b) (count s) index h = Inr ((), h\<lparr>arrays := (arrays h)(b \<mapsto> ws)\<rparr>)"
    "length ws = length xs"
    "\<forall>k<length xs. ws ! k = (if index < int k \<and> int k \<le> count s then xs ! (k - 1) else xs ! k)"
    using shiftUp_nth[OF refl v(3) assms(3) lt] by blast
  have wrap: "int32 (count s + 1) = count s + 1"
    using assms(2) v(4,6) by (intro int32_id) auto
  have idx: "index < int (length xs)"
    using assms(4) lt by simp
  have run: "insertVector (Ptr a) index x h =
               Inr ((), h\<lparr>structs := (structs h)(a \<mapsto> s\<lparr>count := count s + 1\<rparr>),
                           arrays := (arrays h)(b \<mapsto> ws[nat index := x])\<rparr>)"
    using v(1,2,3) assms(2,3,4) ws(1,2) wrap idx
    by (simp add: insertVector_def getField_def setField_def bind_def ret_def writeSlot_def)
  have "\<forall>k<length xs. ws ! k =
          (if nat index < k \<and> k \<le> nat (count s) then xs ! (k - 1) else xs ! k)"
  proof (intro allI impI)
    fix k assume "k < length xs"
    moreover have "(index < int k \<and> int k \<le> count s) = (nat index < k \<and> k \<le> nat (count s))"
      using assms(3) v(4) by linarith
    ultimately show "ws ! k = (if nat index < k \<and> k \<le> nat (count s) then xs ! (k - 1) else xs ! k)"
      using ws(3) by simp
  qed
  moreover have "nat index \<le> nat (count s)" "nat (count s) < length xs"
    using assms(3,4) lt by linarith+
  ultimately have "take (Suc (nat (count s))) (ws[nat index := x]) =
               take (nat index) xs @ x # take (nat (count s) - nat index) (drop (nat index) xs)"
    using ws(2) by (intro shifted_insert_list)
  moreover have "nat (count s + 1) = Suc (nat (count s))" "nat (count s - index) = nat (count s) - nat index"
    using v(4) assms(3,4) by linarith+
  ultimately show ?thesis
    using run ws(2) by (intro exI[of _ "ws[nat index := x]"]) simp
qed

lemma removeVector_ok:
  assumes "vec h a s b xs" "0 \<le> index" "index < count s"
  shows "\<exists>zs. removeVector (Ptr a) index h =
                Inr ((), h\<lparr>structs := (structs h)(a \<mapsto> s\<lparr>count := count s - 1\<rparr>),
                            arrays := (arrays h)(b \<mapsto> zs)\<rparr>)
            \<and> length zs = length xs
            \<and> take (nat (count s - 1)) zs =
                take (nat index) xs @ take (nat (count s - 1 - index)) (drop (Suc (nat index)) xs)"
proof -
  have v: "structs h a = Some s" "elements s = Ptr b" "arrays h b = Some xs"
    "0 \<le> count s" "count s \<le> capacity s" "capacity s = int (length xs)" "capacity s \<le> INT_MAX"
    using assms(1) by (simp_all add: vec_def)
  let ?h1 = "h\<lparr>structs := (structs h)(a \<mapsto> s\<lparr>count := count s - 1\<rparr>)\<rparr>"
  have lt: "count s - 1 < int (length xs)"
    using v(5,6) by simp
  have arr1: "arrays ?h1 b = Some xs"
    using v(3) by simp
  obtain zs where zs:
    "shiftDown (Ptr b) index (count s - 1) ?h1 = Inr ((), ?h1\<lparr>arrays := (arrays ?h1)(b \<mapsto> zs)\<rparr>)"
    "length zs = length xs"
    "\<forall>k<length xs. zs ! k = (if index \<le> int k \<and> int k < count s - 1 then xs ! (k + 1) else xs ! k)"
    using shiftDown_nth[OF refl arr1 assms(2) lt] by blast
  have wrap: "int32 (count s - 1) = count s - 1"
    using assms(2,3) v(5,7) by (intro int32_id) auto
  have run: "removeVector (Ptr a) index h =
               Inr ((), h\<lparr>structs := (structs h)(a \<mapsto> s\<lparr>count := count s - 1\<rparr>),
                           arrays := (arrays h)(b \<mapsto> zs)\<rparr>)"
    using v(1,2,3) assms(2,3) zs(1) wrap
    by (simp add: removeVector_def getField_def setField_def bind_def)
  have "\<forall>k<length xs. zs ! k =
          (if nat index \<le> k \<and> k < nat (count s - 1) then xs ! (k + 1) else xs ! k)"
  proof (intro allI impI)
    fix k assume "k < length xs"
    moreover have "(index \<le> int k \<and> int k < count s - 1) = (nat index \<le> k \<and> k < nat (count s - 1))"
      using assms(2) v(4) by linarith
    ultimately show "zs ! k = (if nat index \<le> k \<and> k < nat (count s - 1) then xs ! (k + 1) else xs ! k)"
      using zs(3) by simp
  qed
  moreover have "nat index \<le> nat (count s - 1)" "nat (count s - 1) < length xs"
    using assms(2,3) lt by linarith+
  ultimately have "take (nat (count s - 1)) zs =
               take (nat index) xs @ take (nat (count s - 1) - nat index) (drop (Suc (nat index)) xs)"
    using zs(2) by (intro shifted_remove_list)
  moreover have "nat (count s - 1 - index) = nat (count s - 1) - nat index"
    using assms(2,3) by linarith
  ultimately show ?thesis
    using run zs(2) by (intro exI[of _ zs]) simp
qed

lemma frame_refl: "frame a b h h"
  by (simp add: frame_def)

lemma frame_grow_trans:
  assumes "frame a b h h1" "frame a (next_addr h) h1 h2"
  shows "frame a b h h2"
  using assms unfolding frame_def
  by (metis le_trans less_le_trans nat_neq_iff)

lemma expandCapacity_vec:
  assumes "heap_ok h" "vec h a s b xs" "capacity s * 2 \<le> INT_MAX"
  shows "\<exists>h1 s1 xs1. expandCapacity (Ptr a) h = Inr ((), h1)
           \<and> heap_ok h1 \<and> vec h1 a s1 (next_addr h) xs1 \<and> frame a b h h1
           \<and> next_addr h1 = Suc (next_addr h)
           \<and> count s1 = count s \<and> capacity s1 = capacity s * 2 \<and> header s1 = header s
           \<and> take (nat (count s)) xs1 = take (nat (count s)) xs"
proof -
  let ?N = "next_addr h"
  let ?s1 = "s\<lparr>elements := Ptr ?N, capacity := capacity s * 2\<rparr>"
  let ?xs1 = "take (nat (count s)) xs @ replicate (length xs * 2 - nat (count s)) Wild"
  obtain h1 where h1: "expandCapacity (Ptr a) h = Inr ((), h1)"
    "structs h1 = (structs h)(a \<mapsto> ?s1)"
    "arrays h1 = (arrays h)(?N \<mapsto> ?xs1, b := None)"
    "iterators h1 = iterators h" "next_addr h1 = Suc ?N"
    using expandCapacity_ok[OF assms] by blast
  have v: "structs h a = Some s" "elements s = Ptr b" "arrays h b = Some xs"
    "0 \<le> count s" "count s \<le> capacity s" "capacity s = int (length xs)"
    using assms(2) by (simp_all add: vec_def)
  have live: "a < ?N" "b < ?N"
    using vec_live[OF assms(1,2)] by simp_all
  have "heap_ok h1"
    using assms(1) live h1(2-5) by (auto simp: heap_ok_def)
  moreover have "length ?xs1 = length xs * 2"
    using v(4,5,6) by simp
  then have "vec h1 a ?s1 ?N ?xs1"
    using v live h1(2,3) assms(3) by (simp add: vec_def)
  moreover have "frame a b h h1"
    using h1(2-5) by (simp add: frame_def)
  moreover have "take (nat (count s)) ?xs1 = take (nat (count s)) xs"
    using v(4,5,6) by simp
  ultimately show ?thesis
    using h1(1,5) by (intro exI[of _ h1] exI[of _ ?s1] exI[of _ ?xs1]) simp
qed

lemma addVector_room_spec:
  assumes "heap_ok h" "vec h a s b xs" "count s < capacity s"
  shows "\<exists>h' s' xs'. addVector (Ptr a) x h = Inr ((), h')
           \<and> heap_ok h' \<and> vec h' a s' b xs' \<and> frame a b h h'
           \<and> next_addr h' = next_addr h
           \<and> count s' = count s + 1 \<and> capacity s' = capacity s \<and> header s' = header s
           \<and> take (nat (count s')) xs' = take (nat (count s)) xs @ [x]"
proof -
  let ?s' = "s\<lparr>count := count s + 1\<rparr>"
  let ?xs' = "xs[nat (count s) := x]"
  let ?h' = "h\<lparr>structs := (structs h)(a \<mapsto> ?s'), arrays := (arrays h)(b \<mapsto> ?xs')\<rparr>"
  have v: "structs h a = Some s" "elements s = Ptr b" "arrays h b = Some xs"
    "0 \<le> count s" "count s \<le> capacity s" "capacity s = int (length xs)" "capacity s \<le> INT_MAX"
    using assms(2) by (simp_all add: vec_def)
  have live: "a < next_addr h" "b < next_addr h"
    using vec_live[OF assms(1,2)] by simp_all
  have "heap_ok ?h'"
    using assms(1) live by (auto simp: heap_ok_def)
  moreover have "vec ?h' a ?s' b ?xs'"
    using v assms(3) by (simp add: vec_def)
  moreover have "frame a b h ?h'"
    by (simp add: frame_def)
  moreover have "nat (count s) < length xs"
    using v(4,6) assms(3) by linarith
  then have "take (nat (count s + 1)) ?xs' = take (nat (count s)) xs @ [x]"
    using v(4) by (simp add: nat_add_distrib take_Suc_conv_app_nth)
  ultimately show ?thesis
    using addVector_room[OF assms(2,3), of x]
    by (intro exI[of _ ?h'] exI[of _ ?s'] exI[of _ ?xs']) simp
qed

lemma addVector_spec:
  assumes "heap_ok h" "vec h a s b xs"
    "count s < capacity s \<or> 1 \<le> capacity s \<and> capacity s * 2 \<le> INT_MAX"
  shows "\<exists>h' s' b' xs'. addVector (Ptr a) x h = Inr ((), h')
           \<and> heap_ok h' \<and> vec h' a s' b' xs' \<and> frame a b h h'
           \<and> (b' = b \<or> next_addr h \<le> b')
           \<and> count s' = count s + 1
           \<and> capacity s' = (if count s = capacity s then capacity s * 2 else capacity s)
           \<and> header s' = header s
           \<and> take (nat (count s')) xs' = take (nat (count s)) xs @ [x]"
proof (cases "count s < capacity s")
  case True
  then show ?thesis
    using addVector_room_spec[OF assms(1,2) True, of x] by auto
next
  case False
  have v: "structs h a = Some s" "count s \<le> capacity s"
    using assms(2) by (simp_all add: vec_def)
  then have full: "count s = capacity s" and big: "1 \<le> capacity s" "capacity s * 2 \<le> INT_MAX"
    using False assms(3) by auto
  obtain h1 s1 xs1 where e: "expandCapacity (Ptr a) h = Inr ((), h1)"
    "heap_ok h1" "vec h1 a s1 (next_addr h) xs1" "frame a b h h1"
    "count s1 = count s" "capacity s1 = capacity s * 2" "header s1 = header s"
    "take (nat (count s)) xs1 = take (nat (count s)) xs"
    using expandCapacity_vec[OF assms(1,2) big(2)] by blast
  have room: "count s1 < capacity s1"
    using e(5,6) full big by simp
  have s1: "structs h1 a = Some s1"
    using e(3) by (simp add: vec_def)
  obtain h' s' xs' where a: "addVector (Ptr a) x h1 = Inr ((), h')"
    "heap_ok h'" "vec h' a s' (next_addr h) xs'" "frame a (next_addr h) h1 h'"
    "count s' = count s1 + 1" "capacity s' = capacity s1" "header s' = header s1"
    "take (nat (count s')) xs' = take (nat (count s1)) xs1 @ [x]"
    using addVector_room_spec[OF e(2,3) room, of x] by blast
  have "addVector (Ptr a) x h = Inr ((), h')"
    using addVector_after_expand[OF v(1) full e(1) s1] room a(1) by simp
  moreover have "frame a b h h'"
    using e(4) a(4) by (rule frame_grow_trans)
  ultimately show ?thesis
    using a(2,3,5,6,7,8) e(5,6,7,8) full
    by (intro exI[of _ h'] exI[of _ s'] exI[of _ "next_addr h"] exI[of _ xs']) simp
qed

lemma insertVector_room_spec:
  assumes "heap_ok h" "vec h a s b xs" "count s < capacity s" "0 \<le> index" "index \<le> count s"
  shows "\<exists>h' s' xs'. insertVector (Ptr a) index x h = Inr ((), h')
           \<and> heap_ok h' \<and> vec h' a s' b xs' \<and> frame a b h h'
           \<and> next_addr h' = next_addr h
           \<and> count s' = count s + 1 \<and> capacity s' = capacity s \<and> header s' = header s
           \<and> take (nat (count s')) xs' =
                take (nat index) (take (nat (count s)) xs) @ x # drop (nat index) (take (nat (count s)) xs)"
proof -
  let ?s' = "s\<lparr>count := count s + 1\<rparr>"
  obtain zs where zs: "insertVector (Ptr a) index x h =
        Inr ((), h\<lparr>structs := (structs h)(a \<mapsto> ?s'), arrays := (arrays h)(b \<mapsto> zs)\<rparr>)"
    "length zs = length xs"
    "take (nat (count s + 1)) zs =
       take (nat index) xs @ x # take (nat (count s - index)) (drop (nat index) xs)"
    using insertVector_room[OF assms(2-5), of x] by blast
  let ?h' = "h\<lparr>structs := (structs h)(a \<mapsto> ?s'), arrays := (arrays h)(b \<mapsto> zs)\<rparr>"
  have v: "structs h a = Some s" "elements s = Ptr b" "arrays h b = Some xs"
    "0 \<le> count s" "count s \<le> capacity s" "capacity s = int (length xs)" "capacity s \<le> INT_MAX"
    using assms(2) by (simp_all add: vec_def)
  have live: "a < next_addr h" "b < next_addr h"
    using vec_live[OF assms(1,2)] by simp_all
  have "heap_ok ?h'"
    using assms(1) live by (auto simp: heap_ok_def)
  moreover have "vec ?h' a ?s' b zs"
    using v assms(3) zs(2) by (simp add: vec_def)
  moreover have "frame a b h ?h'"
    by (simp add: frame_def)
  moreover have "nat index \<le> nat (count s)" "nat (count s - index) = nat (count s) - nat index"
    using assms(4,5) by linarith+
  then have "take (nat index) xs @ x # take (nat (count s - index)) (drop (nat index) xs) =
          take (nat index) (take (nat (count s)) xs) @ x # drop (nat index) (take (nat (count s)) xs)"
    by (simp add: drop_take min_def)
  ultimately show ?thesis
    using zs(1,3)
    by (intro exI[of _ ?h'] exI[of _ ?s'] exI[of _ zs]) simp
qed

lemma insertVector_spec:
  assumes "heap_ok h" "vec h a s b xs" "0 \<le> index" "index \<le> count s"
    "count s < capacity s \<or> 1 \<le> capacity s \<and> capacity s * 2 \<le> INT_MAX"
  shows "\<exists>h' s' b' xs'. insertVector (Ptr a) index x h = Inr ((), h')
           \<and> heap_ok h' \<and> vec h' a s' b' xs' \<and> frame a b h h'
           \<and> (b' = b \<or> next_addr h \<le> b')
           \<and> count s' = count s + 1
           \<and> capacity s' = (if count s = capacity s then capacity s * 2 else capacity s)
           \<and> header s' = header s
           \<and> take (nat (count s')) xs' =
                take (nat index) (take (nat (count s)) xs) @ x # drop (nat index) (take (nat (count s)) xs)"
proof (cases "count s < capacity s")
  case True
  then show ?thesis
    using insertVector_room_spec[OF assms(1,2) True assms(3,4), of x] by auto
next
  case False
  have v: "structs h a = Some s" "count s \<le> capacity s"
    using assms(2) by (simp_all add: vec_def)
  then have full: "count s = capacity s" and big: "1 \<le> capacity s" "capacity s * 2 \<le> INT_MAX"
    using False assms(5) by auto
  obtain h1 s1 xs1 where e: "expandCapacity (Ptr a) h = Inr ((), h1)"
    "heap_ok h1" "vec h1 a s1 (next_addr h) xs1" "frame a b h h1"
    "count s1 = count s" "capacity s1 = capacity s * 2" "header s1 = header s"
    "take (nat (count s)) xs1 = take (nat (count s)) xs"
    using expandCapacity_vec[OF assms(1,2) big(2)] by blast
  have room: "count s1 < capacity s1"
    using e(5,6) full big by simp
  have s1: "structs h1 a = Some s1"
    using e(3) by (simp add: vec_def)
  have idx: "index \<le> count s1"
    using assms(4) e(5) by simp
  obtain h' s' xs' where a: "insertVector (Ptr a) index x h1 = Inr ((), h')"
    "heap_ok h'" "vec h' a s' (next_addr h) xs'" "frame a (next_addr h) h1 h'"
    "count s' = count s1 + 1" "capacity s' = capacity s1" "header s' = header s1"
    "take (nat (count s')) xs' =
       take (nat index) (take (nat (count s1)) xs1) @ x # drop (nat index) (take (nat (count s1)) xs1)"
    using insertVector_room_spec[OF e(2,3) room assms(3) idx, of x] by blast
  have "insertVector (Ptr a) index x h = Inr ((), h')"
    using insertVector_after_expand[OF v(1) full e(1) s1 e(5) _ assms(3,4)] room a(1) by simp
  moreover have "frame a b h h'"
    using e(4) a(4) by (rule frame_grow_trans)
  moreover have "take (nat (count s')) xs' =
       take (nat index) (take (nat (count s)) xs) @ x # drop (nat index) (take (nat (count s)) xs)"
    using a(8) unfolding e(5) e(8) .
  ultimately show ?thesis
    using a(2,3,5,6,7) e(5,6,7) full
    by (intro exI[of _ h'] exI[of _ s'] exI[of _ "next_addr h"] exI[of _ xs']) simp
qed

lemma removeVector_spec:
  assumes "heap_ok h" "vec h a s b xs" "0 \<le> index" "index < count s"
  shows "\<exists>h' s' xs'. removeVector (Ptr a) index h = Inr ((), h')
           \<and> heap_ok h' \<and> vec h' a s' b xs' \<and> frame a b h h'
           \<and> next_addr h' = next_addr h
           \<and> count s' = count s - 1 \<and> capacity s' = capacity s \<and> header s' = header s
           \<and> take (nat (count s')) xs' =
                take (nat index) (take (nat (count s)) xs) @ drop (Suc (nat index)) (take (nat (count s)) xs)"
proof -
  let ?s' = "s\<lparr>count := count s - 1\<rparr>"
  obtain zs where zs: "removeVector (Ptr a) index h =
        Inr ((), h\<lparr>structs := (structs h)(a \<mapsto> ?s'), arrays := (arrays h)(b \<mapsto> zs)\<rparr>)"
    "length zs = length xs"
    "take (nat (count s - 1)) zs =
       take (nat index) xs @ take (nat (count s - 1 - index)) (drop (Suc (nat index)) xs)"
    using removeVector_ok[OF assms(2-4)] by blast
  let ?h' = "h\<lparr>structs := (structs h)(a \<mapsto> ?s'), arrays := (arrays h)(b \<mapsto> zs)\<rparr>"
  have v: "structs h a = Some s" "elements s = Ptr b" "arrays h b = Some xs"
    "0 \<le> count s" "count s \<le> capacity s" "capacity s = int (length xs)" "capacity s \<le> INT_MAX"
    using assms(2) by (simp_all add: vec_def)
  have live: "a < next_addr h" "b < next_addr h"
    using vec_live[OF assms(1,2)] by simp_all
  have "heap_ok ?h'"
    using assms(1) live by (auto simp: heap_ok_def)
  moreover have "vec ?h' a ?s' b zs"
    using v assms(3,4) zs(2) by (simp add: vec_def)
  moreover have "frame a b h ?h'"
    by (simp add: frame_def)
  moreover have "nat index \<le> nat (count s)" "nat (count s - 1 - index) = nat (count s) - Suc (nat index)"
    using assms(3,4) by linarith+
  then have "take (nat index) xs @ take (nat (count s - 1 - index)) (drop (Suc (nat index)) xs) =
          take (nat index) (take (nat (count s)) xs) @ drop (Suc (nat index)) (take (nat (count s)) xs)"
    by (simp add: drop_take min_def)
  ultimately show ?thesis
    using zs(1,3)
    by (intro exI[of _ ?h'] exI[of _ ?s'] exI[of _ zs]) simp
qed

lemma observe_ok:
  assumes "vec h a s b xs"
  shows "observe h (Ptr a) =
           (Inr (count s), Inr (capacity s), Some (map Inr (take (nat (count s)) xs)))"
  using assms elementSeq_ok[OF assms] sizeVector_ok[OF assms]
  by (simp add: observe_def valueOf_def getField_def vec_def)

lemma insert_remove_list:
  "i \<le> length cs \<Longrightarrow>
     take i (take i cs @ x # drop i cs) @ drop (Suc i) (take i cs @ x # drop i cs) = cs"
  by simp


lemma copySlots_the:
  assumes "a \<noteq> b" "arrays h a \<noteq> None" "arrays h b \<noteq> None" "0 \<le> n"
    "n \<le> int (length (the (arrays h a)))" "n \<le> int (length (the (arrays h b)))"
  shows "copySlots (Ptr b) (Ptr a) 0 n h =
           Inr ((), h\<lparr>arrays := (arrays h)(b \<mapsto>
                        take (nat n) (the (arrays h a)) @ drop (nat n) (the (arrays h b)))\<rparr>)"
  using assms by (intro copySlots_prefix) auto

lemma heap_ok_fresh2:
  "heap_ok h \<Longrightarrow> arrays h a = Some xs \<Longrightarrow> a < next_addr h"
  unfolding heap_ok_def by (metis not_le_imp_less option.distinct(1))

lemma arrayToVector_ok:
  assumes "heap_ok h" "arrays h a = Some xs" "0 \<le> n" "n \<le> int (length xs)"
  shows "\<exists>h'. arrayToVector (Ptr a) n h = Inr (Ptr (next_addr h), h')
           \<and> structs h' = (structs h)(next_addr h \<mapsto>
                 \<lparr>header = Some NewVectorIterator, elements = Ptr (Suc (next_addr h)),
                  count = n, capacity = n\<rparr>)
           \<and> arrays h' = (arrays h)(Suc (next_addr h) \<mapsto> take (nat n) xs)
           \<and> iterators h' = iterators h
           \<and> next_addr h' = Suc (Suc (next_addr h))"
proof -
  have "a < next_addr h"
    using assms(1,2) by (rule heap_ok_fresh2)
  then show ?thesis
    using assms(2,3,4)
    by (simp add: arrayToVector_def bind_def ret_def newBlock_def enableIteration_def
          setField_def newArray_def copySlots_the)
qed

lemma newVector_ok:
  "\<exists>h'. newVector h = Inr (Ptr (next_addr h), h')
           \<and> structs h' = (structs h)(next_addr h \<mapsto>
                 \<lparr>header = Some NewVectorIterator, elements = Ptr (Suc (next_addr h)),
                  count = 0, capacity = INITIAL_CAPACITY\<rparr>)
           \<and> arrays h' = (arrays h)(Suc (next_addr h) \<mapsto> replicate 10 Wild)
           \<and> iterators h' = iterators h
           \<and> next_addr h' = Suc (Suc (next_addr h))"
  by (simp add: newVector_def bind_def ret_def newBlock_def enableIteration_def
        setField_def newArray_def INITIAL_CAPACITY_def)

lemma drop_replicate_Cons: "drop n (x # replicate n x) = [x]"
proof -
  have "drop n (replicate (Suc n) x) = replicate (Suc n - n) x"
    by (rule drop_replicate)
  then show ?thesis by simp
qed

lemma vectorToArray_ok:
  assumes "heap_ok h" "vec h a s b xs" "count s < INT_MAX"
  shows "\<exists>h'. vectorToArray (Ptr a) h = Inr (Ptr (next_addr h), h')
           \<and> structs h' = structs h
           \<and> arrays h' = (arrays h)(next_addr h \<mapsto> take (nat (count s)) xs @ [NULL])
           \<and> iterators h' = iterators h
           \<and> next_addr h' = Suc (next_addr h)"
proof -
  have v: "structs h a = Some s" "elements s = Ptr b" "arrays h b = Some xs"
    "0 \<le> count s" "count s \<le> int (length xs)"
    using assms(2) by (auto simp: vec_def)
  have "b < next_addr h"
    using assms(1) v(3) by (rule heap_ok_fresh2)
  moreover have "int32 (count s + 1) = count s + 1"
    using v(4) assms(3) by (intro int32_id) auto
  moreover have "nat (count s + 1) = Suc (nat (count s))"
    using v(4) by linarith
  moreover have "length (take (nat (count s)) xs) = nat (count s)"
    using v(4,5) by simp
  ultimately show ?thesis
    using v
    by (simp add: vectorToArray_def bind_def ret_def getField_def newArray_def copySlots_the
          writeSlot_def list_update_append drop_replicate_Cons)
qed

lemma vectorToArray_overflow:
  assumes "vec h a s b xs" "count s = INT_MAX"
  shows "vectorToArray (Ptr a) h = Inl (NoMemory, h)"
proof -
  have "int32 (INT_MAX + 1) < 0"
    by (simp add: int32_def INT_MAX_def)
  then show ?thesis
    using assms
    by (simp add: vec_def vectorToArray_def bind_def getField_def newArray_def)
qed

lemma cloneVector_ok:
  assumes "heap_ok h" "vec h a s b xs"
  shows "\<exists>h'. cloneVector (Ptr a) h = Inr (Ptr (next_addr h), h')
           \<and> structs h' = (structs h)(next_addr h \<mapsto>
                 \<lparr>header = Some NewVectorIterator, elements = Ptr (Suc (next_addr h)),
                  count = count s, capacity = capacity s\<rparr>)
           \<and> arrays h' = (arrays h)(Suc (next_addr h) \<mapsto>
                 take (nat (count s)) xs @ replicate (length xs - nat (count s)) Wild)
           \<and> iterators h' = iterators h
           \<and> next_addr h' = Suc (Suc (next_addr h))"
proof -
  have v: "structs h a = Some s" "elements s = Ptr b" "arrays h b = Some xs"
    "0 \<le> count s" "count s \<le> int (length xs)" "capacity s = int (length xs)"
    using assms(2) by (auto simp: vec_def)
  have "a < next_addr h" "b < next_addr h"
    using vec_live[OF assms] by simp_all
  then show ?thesis
    using v(1,2,3,4,5)
    by (simp add: cloneVector_def bind_def ret_def newBlock_def enableIteration_def
          setField_def getField_def newArray_def copySlots_the v(6))
qed


section \<open>Doubling and sequences of appends\<close>

lemma leastDoubling_ge: "0 < c \<Longrightarrow> c \<le> leastDoubling c n"
proof (induction c n rule: leastDoubling.induct)
  case (1 c n)
  show ?case
  proof (cases "c < n")
    case True
    then have "2 * c \<le> leastDoubling (2 * c) n"
      using 1 by simp
    then show ?thesis
      using True 1(2) by (subst leastDoubling.simps) simp
  next
    case False
    then show ?thesis
      by (subst leastDoubling.simps) simp
  qed
qed

lemma leastDoubling_reach: "0 < c \<Longrightarrow> n \<le> leastDoubling c n"
proof (induction c n rule: leastDoubling.induct)
  case (1 c n)
  show ?case
  proof (cases "c < n")
    case True
    then have "n \<le> leastDoubling (2 * c) n"
      using 1 by simp
    then show ?thesis
      using True 1(2) by (subst leastDoubling.simps) simp
  next
    case False
    then show ?thesis
      by (subst leastDoubling.simps) simp
  qed
qed

lemma leastDoubling_power: "0 < c \<Longrightarrow> \<exists>k. leastDoubling c n = c * 2 ^ k"
proof (induction c n rule: leastDoubling.induct)
  case (1 c n)
  show ?case
  proof (cases "c < n")
    case True
    then obtain k where "leastDoubling (2 * c) n = 2 * c * 2 ^ k"
      using 1 by auto
    then have "leastDoubling c n = c * 2 ^ Suc k"
      using True 1(2) by (subst leastDoubling.simps) simp
    then show ?thesis ..
  next
    case False
    then have "leastDoubling c n = c * 2 ^ 0"
      by (subst leastDoubling.simps) simp
    then show ?thesis ..
  qed
qed

lemma leastDoubling_least: "0 < c \<Longrightarrow> n \<le> c * 2 ^ j \<Longrightarrow> leastDoubling c n \<le> c * 2 ^ j"
proof (induction c n arbitrary: j rule: leastDoubling.induct)
  case (1 c n)
  show ?case
  proof (cases "c < n")
    case True
    then obtain i where j: "j = Suc i"
      using 1(3) by (cases j) auto
    then have "n \<le> 2 * c * 2 ^ i"
      using 1(3) by simp
    then have "leastDoubling (2 * c) n \<le> 2 * c * 2 ^ i"
      using 1(1)[of i] True 1(2) by simp
    then show ?thesis
      using True 1(2) j by (subst leastDoubling.simps) simp
  next
    case False
    have "c * 1 \<le> c * 2 ^ j"
      using 1(2) by (intro mult_left_mono) simp_all
    then show ?thesis
      using False by (subst leastDoubling.simps) simp
  qed
qed

lemma leastDoubling_step:
  "0 < c \<Longrightarrow> c < n \<Longrightarrow> leastDoubling c n = leastDoubling (c * 2) n"
  by (subst leastDoubling.simps) (simp add: mult.commute)

lemma addAll_append:
  "addAll v (xs @ ys) h = bind (addAll v xs) (\<lambda>_. addAll v ys) h"
proof (induction xs arbitrary: h)
  case Nil
  show ?case by (simp add: bind_def ret_def)
next
  case (Cons x xs)
  show ?case
    by (cases "addVector v x h") (auto simp: bind_def Cons)
qed

lemma addAll_spec:
  assumes "heap_ok h" "vec h a s b xs" "1 \<le> capacity s"
    "leastDoubling (capacity s) (count s + int (length ys)) \<le> INT_MAX"
  shows "\<exists>h' s' b' xs'. addAll (Ptr a) ys h = Inr ((), h')
           \<and> heap_ok h' \<and> vec h' a s' b' xs'
           \<and> count s' = count s + int (length ys)
           \<and> capacity s' = leastDoubling (capacity s) (count s + int (length ys))
           \<and> take (nat (count s')) xs' = take (nat (count s)) xs @ ys"
  using assms
proof (induction ys arbitrary: h s b xs)
  case Nil
  have "count s \<le> capacity s"
    using Nil(2) by (simp add: vec_def)
  then have "leastDoubling (capacity s) (count s) = capacity s"
    by (subst leastDoubling.simps) simp
  then show ?case
    using Nil(1,2) by (intro exI[of _ h] exI[of _ s] exI[of _ b] exI[of _ xs]) (simp add: ret_def)
next
  case (Cons y ys)
  let ?m = "count s + int (length (y # ys))"
  have le: "count s \<le> capacity s"
    using Cons.prems(2) by (simp add: vec_def)
  have grow: "count s < capacity s \<or> 1 \<le> capacity s \<and> capacity s * 2 \<le> INT_MAX"
  proof (cases "count s < capacity s")
    case False
    then have "capacity s < ?m" using le by simp
    then have "leastDoubling (capacity s) ?m = leastDoubling (capacity s * 2) ?m"
      using Cons.prems(3) by (intro leastDoubling_step) simp_all
    moreover have "capacity s * 2 \<le> leastDoubling (capacity s * 2) ?m"
      using Cons.prems(3) by (intro leastDoubling_ge) simp
    ultimately show ?thesis
      using Cons.prems(3,4) by simp
  qed simp
  obtain h1 s1 b1 xs1 where a: "addVector (Ptr a) y h = Inr ((), h1)"
    "heap_ok h1" "vec h1 a s1 b1 xs1" "count s1 = count s + 1"
    "capacity s1 = (if count s = capacity s then capacity s * 2 else capacity s)"
    "take (nat (count s1)) xs1 = take (nat (count s)) xs @ [y]"
    using addVector_spec[OF Cons.prems(1,2) grow, of y] by blast
  have m: "count s1 + int (length ys) = ?m"
    using a(4) by simp
  have cap: "leastDoubling (capacity s1) ?m = leastDoubling (capacity s) ?m"
  proof (cases "count s = capacity s")
    case True
    then have "capacity s < ?m" by simp
    then show ?thesis
      using a(5) True Cons.prems(3) leastDoubling_step[of "capacity s" ?m] by simp
  next
    case False
    then show ?thesis using a(5) by simp
  qed
  have one: "1 \<le> capacity s1"
    using a(5) Cons.prems(3) by (simp split: if_splits)
  have bound: "leastDoubling (capacity s1) (count s1 + int (length ys)) \<le> INT_MAX"
    unfolding m cap using Cons.prems(4) .
  obtain h' s' b' xs' where r: "addAll (Ptr a) ys h1 = Inr ((), h')"
    "heap_ok h'" "vec h' a s' b' xs'"
    "count s' = count s1 + int (length ys)"
    "capacity s' = leastDoubling (capacity s1) (count s1 + int (length ys))"
    "take (nat (count s')) xs' = take (nat (count s1)) xs1 @ ys"
    using Cons.IH[OF a(2,3) one bound] by blast
  have "addAll (Ptr a) (y # ys) h = Inr ((), h')"
    using a(1) r(1) by (simp add: bind_def)
  moreover have "count s' = ?m"
    using r(4) unfolding m .
  moreover have "capacity s' = leastDoubling (capacity s) ?m"
    using r(5) unfolding m cap .
  moreover have "take (nat (count s')) xs' = take (nat (count s)) xs @ y # ys"
    using r(6) a(6) by simp
  ultimately show ?case
    using r(2,3) by blast
qed

lemma newVector_vec:
  assumes "heap_ok h"
  shows "\<exists>h0 s0 b0 xs0. newVector h = Inr (Ptr (next_addr h), h0) \<and> heap_ok h0
           \<and> vec h0 (next_addr h) s0 b0 xs0 \<and> count s0 = 0 \<and> capacity s0 = INITIAL_CAPACITY
           \<and> header s0 = Some NewVectorIterator"
proof -
  let ?N = "next_addr h"
  let ?s0 = "\<lparr>header = Some NewVectorIterator, elements = Ptr (Suc ?N),
              count = 0, capacity = INITIAL_CAPACITY\<rparr>"
  obtain h0 where h0: "newVector h = Inr (Ptr ?N, h0)"
    "structs h0 = (structs h)(?N \<mapsto> ?s0)"
    "arrays h0 = (arrays h)(Suc ?N \<mapsto> replicate 10 Wild)"
    "iterators h0 = iterators h" "next_addr h0 = Suc (Suc ?N)"
    using newVector_ok[of h] by (elim exE conjE)
  have "heap_ok h0"
    using assms h0(2-5) by (auto simp: heap_ok_def)
  moreover have "vec h0 ?N ?s0 (Suc ?N) (replicate 10 Wild)"
    using h0(2,3) by (simp add: vec_def INITIAL_CAPACITY_def INT_MAX_def)
  ultimately show ?thesis
    using h0(1) by (intro exI[of _ h0] exI[of _ ?s0] exI[of _ "Suc ?N"] exI[of _ "replicate 10 Wild"]) simp
qed

lemma largest_doubling: "(1342177280 :: int) = INITIAL_CAPACITY * 2 ^ 27"
  by (simp add: INITIAL_CAPACITY_def)

section \<open>What a mutation touches\<close>

lemma shiftUp_none: "shiftUp elems i i h = Inr ((), h)"
  by (subst shiftUp.simps) simp

lemma expand_zero:
  assumes "heap_ok h" "vec h a s b xs" "count s = capacity s" "capacity s = 0"
  shows "\<exists>h1. expandCapacity (Ptr a) h = Inr ((), h1)
           \<and> structs h1 a = Some (s\<lparr>elements := Ptr (next_addr h), capacity := capacity s * 2\<rparr>)
           \<and> arrays h1 (next_addr h) = Some []"
proof -
  let ?N = "next_addr h"
  have big: "capacity s * 2 \<le> INT_MAX"
    using assms(4) by (simp add: INT_MAX_def)
  obtain h1 where h1: "expandCapacity (Ptr a) h = Inr ((), h1)"
    "structs h1 = (structs h)(a \<mapsto> s\<lparr>elements := Ptr ?N, capacity := capacity s * 2\<rparr>)"
    "arrays h1 = (arrays h)(?N \<mapsto>
        take (nat (count s)) xs @ replicate (length xs * 2 - nat (count s)) Wild, b := None)"
    using expandCapacity_ok[OF assms(1,2) big] by (elim exE conjE)
  have v: "arrays h b = Some xs" "capacity s = int (length xs)"
    using assms(2) by (simp_all add: vec_def)
  have ne: "b \<noteq> ?N"
    using heap_ok_fresh2[OF assms(1) v(1)] by simp
  have "xs = []"
    using v(2) assms(4) by simp
  then have "arrays h1 ?N = Some []"
    using h1(3) ne assms(3,4) by simp
  then show ?thesis
    using h1(1,2) by (intro exI[of _ h1]) simp
qed

lemma addVector_zero:
  assumes "heap_ok h" "vec h a s b xs" "count s = capacity s" "capacity s = 0"
  shows "\<exists>h1. addVector (Ptr a) x h = Inl (MemoryFault, h1)"
proof -
  obtain h1 where h1: "expandCapacity (Ptr a) h = Inr ((), h1)"
    "structs h1 a = Some (s\<lparr>elements := Ptr (next_addr h), capacity := capacity s * 2\<rparr>)"
    "arrays h1 (next_addr h) = Some []"
    using expand_zero[OF assms] by (elim exE conjE)
  have "structs h a = Some s"
    using assms(2) by (simp add: vec_def)
  then have "addVector (Ptr a) x h = Inl (MemoryFault, h1)"
    using assms(3,4) h1
    by (simp add: addVector_def bind_def getField_def writeSlot_def)
  then show ?thesis ..
qed

lemma insertVector_zero:
  assumes "heap_ok h" "vec h a s b xs" "count s = capacity s" "capacity s = 0" "index = 0"
  shows "\<exists>h1. insertVector (Ptr a) index x h = Inl (MemoryFault, h1)"
proof -
  obtain h1 where h1: "expandCapacity (Ptr a) h = Inr ((), h1)"
    "structs h1 a = Some (s\<lparr>elements := Ptr (next_addr h), capacity := capacity s * 2\<rparr>)"
    "arrays h1 (next_addr h) = Some []"
    using expand_zero[OF assms(1-4)] by (elim exE conjE)
  have "structs h a = Some s"
    using assms(2) by (simp add: vec_def)
  then have "insertVector (Ptr a) index x h = Inl (MemoryFault, h1)"
    using assms(3,4,5) h1
    by (simp add: insertVector_def bind_def getField_def writeSlot_def shiftUp_none)
  then show ?thesis ..
qed

text \<open>
  The three ways a mutation of a well-formed vector can end: it returns, and the vector
  is well-formed again, in its old buffer or in one allocated since; or it halts in the
  fatal error reporter or in the allocator, in the store it was called in; or it reaches
  a store outside its buffer.
\<close>

lemma mutate_cases:
  assumes "heap_ok h" "vec h a s b xs"
  shows "(\<exists>h' s' b' xs'. mutate (Ptr a) m h = Inr ((), h') \<and> heap_ok h' \<and> frame a b h h'
            \<and> vec h' a s' b' xs' \<and> (b' = b \<or> next_addr h \<le> b'))
       \<or> (\<exists>e. mutate (Ptr a) m h = Inl (e, h) \<and> e \<noteq> MemoryFault)
       \<or> (\<exists>h1. mutate (Ptr a) m h = Inl (MemoryFault, h1))"
proof -
  have v: "structs h a = Some s" "elements s = Ptr b" "arrays h b = Some xs"
    "0 \<le> count s" "count s \<le> capacity s" "capacity s = int (length xs)" "capacity s \<le> INT_MAX"
    using assms(2) by (simp_all add: vec_def)
  have live: "a < next_addr h" "b < next_addr h"
    using vec_live[OF assms] by simp_all
  show ?thesis
  proof (cases m)
    case (Set i x)
    show ?thesis
    proof (cases "0 \<le> i \<and> i < count s")
      case True
      let ?h' = "h\<lparr>arrays := (arrays h)(b \<mapsto> xs[nat i := x])\<rparr>"
      have "mutate (Ptr a) m h = Inr ((), ?h')"
        using setVector_ok[OF assms(2), of i x] True Set by simp
      moreover have "heap_ok ?h'"
        using assms(1) live by (auto simp: heap_ok_def)
      moreover have "frame a b h ?h'"
        by (simp add: frame_def)
      moreover have "vec ?h' a s b (xs[nat i := x])"
        using v by (simp add: vec_def)
      ultimately show ?thesis by blast
    next
      case False
      then have "mutate (Ptr a) m h = Inl (Fatal ''get: Index value out of range'', h)"
        using v(1) Set by (auto simp: setVector_def getField_def bind_def error_def halt_def)
      then show ?thesis by blast
    qed
  next
    case (Append x)
    consider "count s < capacity s \<or> 1 \<le> capacity s \<and> capacity s * 2 \<le> INT_MAX"
      | "count s = capacity s" "INT_MAX < capacity s * 2"
      | "count s = capacity s" "capacity s = 0"
      using v(4,5) by linarith
    then show ?thesis
    proof cases
      case 1
      then obtain h' s' b' xs' where "addVector (Ptr a) x h = Inr ((), h')" "heap_ok h'"
        "vec h' a s' b' xs'" "frame a b h h'" "b' = b \<or> next_addr h \<le> b'"
        using addVector_spec[OF assms 1, of x] by blast
      then show ?thesis using Append by auto
    next
      case 2
      then have "mutate (Ptr a) m h = Inl (NoMemory, h)"
        using addVector_overflow[OF assms(2) 2, of x] Append by simp
      then show ?thesis by blast
    next
      case 3
      then show ?thesis
        using addVector_zero[OF assms 3, of x] Append by auto
    qed
  next
    case (Remove i)
    show ?thesis
    proof (cases "0 \<le> i \<and> i < count s")
      case True
      then obtain h' s' xs' where "removeVector (Ptr a) i h = Inr ((), h')" "heap_ok h'"
        "vec h' a s' b xs'" "frame a b h h'"
        using removeVector_spec[OF assms, of i] by blast
      then show ?thesis using Remove by auto
    next
      case False
      then have "mutate (Ptr a) m h = Inl (Fatal ''remove: Index value out of range'', h)"
        using v(1) Remove by (auto simp: removeVector_def getField_def bind_def error_def halt_def)
      then show ?thesis by blast
    qed
  next
    case (Insert i x)
    show ?thesis
    proof (cases "0 \<le> i \<and> i \<le> count s")
      case False
      then have "mutate (Ptr a) m h = Inl (Fatal ''insert: Index value out of range'', h)"
        using v(1) Insert by (auto simp: insertVector_def getField_def bind_def error_def halt_def)
      then show ?thesis by blast
    next
      case True
      then have i: "0 \<le> i" "i \<le> count s" by simp_all
      consider "count s < capacity s \<or> 1 \<le> capacity s \<and> capacity s * 2 \<le> INT_MAX"
        | "count s = capacity s" "INT_MAX < capacity s * 2"
        | "count s = capacity s" "capacity s = 0"
        using v(4,5) by linarith
      then show ?thesis
      proof cases
        case 1
        then obtain h' s' b' xs' where "insertVector (Ptr a) i x h = Inr ((), h')" "heap_ok h'"
          "vec h' a s' b' xs'" "frame a b h h'" "b' = b \<or> next_addr h \<le> b'"
          using insertVector_spec[OF assms i 1, of x] by blast
        then show ?thesis using Insert by auto
      next
        case 2
        then have "mutate (Ptr a) m h = Inl (NoMemory, h)"
          using insertVector_overflow[OF assms(2) 2 i, of x] Insert by simp
        then show ?thesis by blast
      next
        case 3
        then have "i = 0" using i by simp
        then show ?thesis
          using insertVector_zero[OF assms 3, of i x] Insert by auto
      qed
    qed
  next
    case Clear
    let ?s' = "s\<lparr>count := 0\<rparr>"
    let ?h' = "h\<lparr>structs := (structs h)(a \<mapsto> ?s')\<rparr>"
    have "mutate (Ptr a) m h = Inr ((), ?h')"
      using v(1) Clear by (simp add: clearVector_def setField_def)
    moreover have "heap_ok ?h'"
      using assms(1) live by (auto simp: heap_ok_def)
    moreover have "frame a b h ?h'"
      by (simp add: frame_def)
    moreover have "vec ?h' a ?s' b xs"
      using v by (simp add: vec_def)
    ultimately show ?thesis by blast
  qed
qed

lemma frame_vec:
  assumes "frame a b h h'" "heap_ok h" "vec h a2 s2 b2 xs2" "a2 \<noteq> a" "b2 \<noteq> b"
  shows "vec h' a2 s2 b2 xs2"
proof -
  have "b2 < next_addr h"
    using vec_live[OF assms(2,3)] by simp
  then show ?thesis
    using assms(1,3,4,5) by (simp add: frame_def vec_def)
qed

text \<open>
  A sequence of mutations of one vector that does not reach a store outside a buffer
  leaves every iterator and every other vector as they were.
\<close>

lemma mutateAll_frame:
  assumes "heap_ok h" "vec h a s b xs" "valueOf (mutateAll (Ptr a) ms h) \<noteq> Inl MemoryFault"
  shows "iterators (heapOf (mutateAll (Ptr a) ms h)) = iterators h
       \<and> (\<forall>a2 s2 b2 xs2. vec h a2 s2 b2 xs2 \<and> a2 \<noteq> a \<and> b2 \<noteq> b \<longrightarrow>
              vec (heapOf (mutateAll (Ptr a) ms h)) a2 s2 b2 xs2)"
  using assms
proof (induction ms arbitrary: h s b xs)
  case Nil
  show ?case by (simp add: ret_def heapOf_def)
next
  case (Cons m ms)
  consider (ret) h' s' b' xs' where "mutate (Ptr a) m h = Inr ((), h')" "heap_ok h'"
      "frame a b h h'" "vec h' a s' b' xs'" "b' = b \<or> next_addr h \<le> b'"
    | (halt) e where "mutate (Ptr a) m h = Inl (e, h)" "e \<noteq> MemoryFault"
    | (fault) h1 where "mutate (Ptr a) m h = Inl (MemoryFault, h1)"
    using mutate_cases[OF Cons.prems(1,2), of m] by blast
  then show ?case
  proof cases
    case ret
    have run: "mutateAll (Ptr a) (m # ms) h = mutateAll (Ptr a) ms h'"
      using ret(1) by (simp add: bind_def)
    then have nf: "valueOf (mutateAll (Ptr a) ms h') \<noteq> Inl MemoryFault"
      using Cons.prems(3) by simp
    have ih: "iterators (heapOf (mutateAll (Ptr a) ms h')) = iterators h'"
      "\<And>a2 s2 b2 xs2. vec h' a2 s2 b2 xs2 \<Longrightarrow> a2 \<noteq> a \<Longrightarrow> b2 \<noteq> b' \<Longrightarrow>
          vec (heapOf (mutateAll (Ptr a) ms h')) a2 s2 b2 xs2"
      using Cons.IH[OF ret(2,4) nf] by blast+
    have "iterators h' = iterators h"
      using ret(3) by (simp add: frame_def)
    moreover have "vec (heapOf (mutateAll (Ptr a) ms h')) a2 s2 b2 xs2"
      if o: "vec h a2 s2 b2 xs2" and na: "a2 \<noteq> a" and nb: "b2 \<noteq> b" for a2 s2 b2 xs2
    proof -
      have "b2 < next_addr h"
        using vec_live[OF Cons.prems(1) o] by simp
      then have "b2 \<noteq> b'"
        using ret(5) nb by auto
      moreover have "vec h' a2 s2 b2 xs2"
        using ret(3) Cons.prems(1) o na nb by (rule frame_vec)
      ultimately show ?thesis
        using na by (intro ih(2))
    qed
    ultimately show ?thesis
      using ih(1) run by simp
  next
    case halt
    then have "mutateAll (Ptr a) (m # ms) h = Inl (e, h)"
      by (simp add: bind_def)
    then show ?thesis
      by (simp add: heapOf_def)
  next
    case fault
    then have "valueOf (mutateAll (Ptr a) (m # ms) h) = Inl MemoryFault"
      by (simp add: bind_def valueOf_def)
    then show ?thesis
      using Cons.prems(3) by simp
  qed
qed

section \<open>The sample stores\<close>

lemma emptyHeap_ok: "heap_ok emptyHeap" "next_addr emptyHeap = 0"
  by (simp_all add: heap_ok_def emptyHeap_def)

lemma fullHeap_ok:
  "heap_ok fullHeap" "vector_ok fullHeap (Ptr 0)"
  "observe fullHeap (Ptr 0) = (Inr 2, Inr 2, Some [Inr (Ptr 5), Inr (Ptr 6)])"
proof -
  have v: "vec fullHeap 0 \<lparr>header = Some NewVectorIterator, elements = Ptr 1, count = 2, capacity = 2\<rparr>
             1 [Ptr 5, Ptr 6]"
    by (simp add: vec_def fullHeap_def INT_MAX_def)
  show "heap_ok fullHeap"
    by (simp add: heap_ok_def fullHeap_def)
  show "vector_ok fullHeap (Ptr 0)"
    using v by (auto simp: vector_ok_iff)
  show "observe fullHeap (Ptr 0) = (Inr 2, Inr 2, Some [Inr (Ptr 5), Inr (Ptr 6)])"
    using observe_ok[OF v] by simp
qed

lemma arrayHeap_ok:
  "heap_ok (arrayHeap n)" "arrays (arrayHeap n) 0 = Some (replicate n NULL)"
  "next_addr (arrayHeap n) = Suc 0"
  by (simp_all add: heap_ok_def arrayHeap_def)

lemma arrayToVector_arrayHeap:
  assumes "int n \<le> INT_MAX"
  shows "\<exists>h' :: 'a heap. arrayToVector (Ptr 0) (int n) (arrayHeap n) = Inr (Ptr (Suc 0), h')
     \<and> vec h' (Suc 0)
           \<lparr>header = Some NewVectorIterator, elements = Ptr (Suc (Suc 0)), count = int n, capacity = int n\<rparr>
           (Suc (Suc 0)) (replicate n NULL)"
proof -
  let ?H = "arrayHeap n :: 'a heap"
  let ?s = "\<lparr>header = Some NewVectorIterator, elements = Ptr (Suc (Suc 0)), count = int n, capacity = int n\<rparr>"
  have pre: "0 \<le> int n" "int n \<le> int (length (replicate n (NULL :: 'a pointer)))"
    by simp_all
  from arrayToVector_ok[OF arrayHeap_ok(1,2) pre]
  obtain h' :: "'a heap" where h':
    "arrayToVector (Ptr 0) (int n) ?H = Inr (Ptr (next_addr ?H), h')"
    "structs h' = (structs ?H)(next_addr ?H \<mapsto>
                 \<lparr>header = Some NewVectorIterator, elements = Ptr (Suc (next_addr ?H)),
                  count = int n, capacity = int n\<rparr>)"
    "arrays h' = (arrays ?H)(Suc (next_addr ?H) \<mapsto> take (nat (int n)) (replicate n NULL))"
    by (elim exE conjE)
  have 1: "arrayToVector (Ptr 0) (int n) ?H = Inr (Ptr (Suc 0), h')"
    using h'(1) unfolding arrayHeap_ok(3) .
  have 2: "structs h' (Suc 0) = Some ?s"
    unfolding h'(2) arrayHeap_ok(3) by simp
  have 3: "arrays h' (Suc (Suc 0)) = Some (replicate n NULL)"
    unfolding h'(3) arrayHeap_ok(3) by simp
  have "vec h' (Suc 0) ?s (Suc (Suc 0)) (replicate n NULL)"
    unfolding vec_def using 2 3 assms by simp
  with 1 show ?thesis
    by (intro exI[of _ h'] conjI)
qed



lemma hugeVector:
  "\<exists>h' :: nat heap. arrayToVector (Ptr 0) 1073741824 (arrayHeap 1073741824) = Inr (Ptr 1, h')
     \<and> vec h' 1
       \<lparr>header = Some NewVectorIterator, elements = Ptr 2,
        count = 1073741824, capacity = 1073741824\<rparr>
       2 (replicate 1073741824 NULL)"
proof -
  have "int 1073741824 \<le> INT_MAX"
    by (simp add: INT_MAX_def)
  from arrayToVector_arrayHeap[OF this]
  obtain h' :: "nat heap" where h':
    "arrayToVector (Ptr 0) (int 1073741824) (arrayHeap 1073741824) = Inr (Ptr (Suc 0), h')"
    "vec h' (Suc 0)
       \<lparr>header = Some NewVectorIterator, elements = Ptr (Suc (Suc 0)),
        count = int 1073741824, capacity = int 1073741824\<rparr>
       (Suc (Suc 0)) (replicate 1073741824 NULL)"
    by (elim exE conjE)
  show ?thesis
    using h' by (intro exI[of _ h']) (simp add: numeral_2_eq_2)
qed

section \<open>Insertion\<close>

text \<open>
  Claim C3, amended. For every vector of size \<open>n\<close> and capacity \<open>cap\<close> that has room
  (\<open>n < cap\<close>) or can grow (\<open>1 \<le> cap\<close> and \<open>2 * cap\<close> within \<^verbatim>\<open>int\<close>), every index with
  \<open>0 \<le> index \<le> n\<close> and every value \<open>x\<close>: \<^verbatim>\<open>insert\<close> returns, the elements at
  \<open>[index, n)\<close> have moved one slot up, \<open>x\<close> is at \<open>index\<close>, the size is \<open>n + 1\<close>, and the
  capacity has doubled exactly when the vector was full. Inserting at \<open>n\<close> succeeds and
  leaves the same observable state as \<^verbatim>\<open>addVector\<close>. For any index outside \<open>[0, n]\<close>,
  \<^verbatim>\<open>insert\<close> halts in the fatal error reporter with its out-of-range message.
\<close>

theorem insertVector_places:
  assumes "heap_ok h" "vector_ok h v" "observe h v = (Inr n, Inr cap, Some es)"
  shows "(0 \<le> index \<and> index \<le> n \<and> (n < cap \<or> 1 \<le> cap \<and> cap * 2 \<le> INT_MAX) \<longrightarrow>
            (\<exists>h'. insertVector v index x h = Inr ((), h') \<and> heap_ok h' \<and> vector_ok h' v
               \<and> observe h' v =
                    (Inr (n + 1), Inr (if n = cap then cap * 2 else cap),
                     Some (take (nat index) es @ Inr x # drop (nat index) es))))
       \<and> (n < cap \<or> 1 \<le> cap \<and> cap * 2 \<le> INT_MAX \<longrightarrow>
            (\<exists>h1 h2. insertVector v n x h = Inr ((), h1) \<and> addVector v x h = Inr ((), h2)
               \<and> observe h1 v = observe h2 v))
       \<and> (index < 0 \<or> n < index \<longrightarrow>
            insertVector v index x h = Inl (Fatal ''insert: Index value out of range'', h))"
proof -
  obtain a s b xs where v: "v = Ptr a" "vec h a s b xs"
    using assms(2) by (auto simp: vector_ok_iff)
  let ?cs = "take (nat (count s)) xs"
  have obs: "n = count s" "cap = capacity s" "es = map Inr ?cs"
    using assms(3) observe_ok[OF v(2)] v(1) by auto
  have len: "length ?cs = nat n" "0 \<le> n"
    using v(2) obs(1) by (auto simp: vec_def)
  have ins: "\<exists>h'. insertVector v i x h = Inr ((), h') \<and> heap_ok h' \<and> vector_ok h' v
               \<and> observe h' v =
                    (Inr (n + 1), Inr (if n = cap then cap * 2 else cap),
                     Some (take (nat i) es @ Inr x # drop (nat i) es))"
    if i0: "0 \<le> i" and i1: "i \<le> n" and g: "n < cap \<or> 1 \<le> cap \<and> cap * 2 \<le> INT_MAX" for i
  proof -
    obtain h' s' b' xs' where r: "insertVector (Ptr a) i x h = Inr ((), h')"
      "heap_ok h'" "vec h' a s' b' xs'" "count s' = count s + 1"
      "capacity s' = (if count s = capacity s then capacity s * 2 else capacity s)"
      "take (nat (count s')) xs' = take (nat i) ?cs @ x # drop (nat i) ?cs"
      using insertVector_spec[OF assms(1) v(2) i0, of x] i1 g obs(1,2) by blast
    have "observe h' v =
            (Inr (n + 1), Inr (if n = cap then cap * 2 else cap),
             Some (take (nat i) es @ Inr x # drop (nat i) es))"
      using observe_ok[OF r(3)] r(4,5,6) obs v(1) by (simp add: take_map drop_map)
    moreover have "vector_ok h' v"
      using r(3) v(1) by (auto simp: vector_ok_iff)
    ultimately show ?thesis
      using r(1,2) v(1) by blast
  qed
  have app: "\<exists>h2. addVector v x h = Inr ((), h2)
               \<and> observe h2 v =
                    (Inr (n + 1), Inr (if n = cap then cap * 2 else cap), Some (es @ [Inr x]))"
    if g: "n < cap \<or> 1 \<le> cap \<and> cap * 2 \<le> INT_MAX"
  proof -
    obtain h' s' b' xs' where r: "addVector (Ptr a) x h = Inr ((), h')"
      "vec h' a s' b' xs'" "count s' = count s + 1"
      "capacity s' = (if count s = capacity s then capacity s * 2 else capacity s)"
      "take (nat (count s')) xs' = ?cs @ [x]"
      using addVector_spec[OF assms(1) v(2), of x] g obs(1,2) by blast
    have "observe h' v =
            (Inr (n + 1), Inr (if n = cap then cap * 2 else cap), Some (es @ [Inr x]))"
      using observe_ok[OF r(2)] r(3,4,5) obs v(1) by simp
    then show ?thesis
      using r(1) v(1) by blast
  qed
  have same: "\<exists>h1 h2. insertVector v n x h = Inr ((), h1) \<and> addVector v x h = Inr ((), h2)
               \<and> observe h1 v = observe h2 v"
    if g: "n < cap \<or> 1 \<le> cap \<and> cap * 2 \<le> INT_MAX"
  proof -
    obtain h1 where h1: "insertVector v n x h = Inr ((), h1)"
      "observe h1 v = (Inr (n + 1), Inr (if n = cap then cap * 2 else cap),
                       Some (take (nat n) es @ Inr x # drop (nat n) es))"
      using ins[OF len(2) order_refl g] by blast
    obtain h2 where h2: "addVector v x h = Inr ((), h2)"
      "observe h2 v = (Inr (n + 1), Inr (if n = cap then cap * 2 else cap), Some (es @ [Inr x]))"
      using app[OF g] by blast
    have "take (nat n) es @ Inr x # drop (nat n) es = es @ [Inr x]"
      using len(1) obs(3) by simp
    then show ?thesis
      using h1 h2 by auto
  qed
  have "insertVector v index x h = Inl (Fatal ''insert: Index value out of range'', h)"
    if "index < 0 \<or> n < index"
    using that v obs(1)
    by (auto simp: insertVector_def getField_def bind_def error_def halt_def vec_def)
  then show ?thesis
    using ins same by blast
qed

theorem insertVector_places_witness:
  "heap_ok fullHeap \<and> vector_ok fullHeap (Ptr 0)
   \<and> observe fullHeap (Ptr 0) = (Inr 2, Inr 2, Some [Inr (Ptr 5), Inr (Ptr 6)])
   \<and> (\<exists>h'. insertVector (Ptr 0) 1 (Ptr 7) fullHeap = Inr ((), h')
          \<and> observe h' (Ptr 0) = (Inr 3, Inr 4, Some [Inr (Ptr 5), Inr (Ptr 7), Inr (Ptr 6)]))
   \<and> insertVector (Ptr 0) 3 (Ptr 7) fullHeap =
        Inl (Fatal ''insert: Index value out of range'', fullHeap)"
  using insertVector_places[OF fullHeap_ok, of 1 "Ptr 7"]
        insertVector_places[OF fullHeap_ok, of 3 "Ptr 7"] fullHeap_ok
  by (auto simp: INT_MAX_def)

text \<open>
  The claim as stated, for every vector, fails twice. On the vector of capacity 0 that
  \<^verbatim>\<open>arrayToVector\<close> makes of an empty array, inserting at index 0 stores outside the
  buffer; on a full vector of \<open>2\<^sup>3\<^sup>0\<close> elements, doubling the capacity leaves the range
  of \<^verbatim>\<open>int\<close> and the allocation fails.
\<close>

theorem insertVector_places_counterexample:
  "valueOf (arrayToVector (Ptr 0) 0 (arrayHeap 0 :: nat heap)) = Inr (Ptr 1)
   \<and> valueOf (insertVector (Ptr 1) 0 NULL
         (heapOf (arrayToVector (Ptr 0) 0 (arrayHeap 0 :: nat heap)))) = Inl MemoryFault
   \<and> valueOf (arrayToVector (Ptr 0) 1073741824 (arrayHeap 1073741824 :: nat heap)) = Inr (Ptr 1)
   \<and> valueOf (insertVector (Ptr 1) 0 NULL
         (heapOf (arrayToVector (Ptr 0) 1073741824 (arrayHeap 1073741824 :: nat heap)))) = Inl NoMemory"
proof -
  have small: "valueOf (arrayToVector (Ptr 0) 0 (arrayHeap 0 :: nat heap)) = Inr (Ptr 1)
   \<and> valueOf (insertVector (Ptr 1) 0 NULL
         (heapOf (arrayToVector (Ptr 0) 0 (arrayHeap 0 :: nat heap)))) = Inl MemoryFault"
    by (simp add: arrayHeap_def valueOf_def heapOf_def bind_def ret_def arrayToVector_def
          newBlock_def enableIteration_def setField_def getField_def newArray_def copySlots.simps
          insertVector_def expandCapacity_def int32_def freeBlock_def writeSlot_def shiftUp.simps)
  obtain h' :: "nat heap" where h':
    "arrayToVector (Ptr 0) 1073741824 (arrayHeap 1073741824) = Inr (Ptr 1, h')"
    "vec h' 1 \<lparr>header = Some NewVectorIterator, elements = Ptr 2,
               count = 1073741824, capacity = 1073741824\<rparr> 2 (replicate 1073741824 NULL)"
    using hugeVector by (elim exE conjE)
  have "insertVector (Ptr 1) 0 NULL h' = Inl (NoMemory, h')"
    using h'(2) by (rule insertVector_overflow) (simp_all add: INT_MAX_def)
  then show ?thesis
    using small h'(1) by (simp add: valueOf_def heapOf_def)
qed

text \<open>
  Claim C4, amended. For every vector of size \<open>n\<close> and capacity \<open>cap\<close> that has room or can
  grow (as above), every index with \<open>0 \<le> index \<le> n\<close> and every value \<open>x\<close>: inserting \<open>x\<close>
  at \<open>index\<close> and then removing at \<open>index\<close> returns and restores the element sequence and
  the size.
\<close>

theorem insert_then_remove_restores:
  assumes "heap_ok h" "vector_ok h v" "observe h v = (Inr n, Inr cap, Some es)"
    "0 \<le> index" "index \<le> n" "n < cap \<or> 1 \<le> cap \<and> cap * 2 \<le> INT_MAX"
  shows "\<exists>h2. insertThenRemove v index x h = Inr ((), h2)
           \<and> elementSeq h2 v = Some es \<and> sizeVector v h2 = Inr (n, h2)"
proof -
  obtain a s b xs where v: "v = Ptr a" "vec h a s b xs"
    using assms(2) by (auto simp: vector_ok_iff)
  let ?cs = "take (nat (count s)) xs"
  have obs: "n = count s" "cap = capacity s" "es = map Inr ?cs"
    using assms(3) observe_ok[OF v(2)] v(1) by auto
  have len: "nat index \<le> length ?cs"
    using v(2) obs(1) assms(4,5) by (auto simp: vec_def)
  obtain h1 s1 b1 xs1 where i: "insertVector (Ptr a) index x h = Inr ((), h1)"
    "heap_ok h1" "vec h1 a s1 b1 xs1" "count s1 = count s + 1"
    "take (nat (count s1)) xs1 = take (nat index) ?cs @ x # drop (nat index) ?cs"
    using insertVector_spec[OF assms(1) v(2) assms(4), of x] assms(5,6) obs(1,2) by blast
  have idx: "index < count s1"
    using i(4) assms(5) obs(1) by simp
  obtain h2 s2 xs2 where r: "removeVector (Ptr a) index h1 = Inr ((), h2)"
    "vec h2 a s2 b1 xs2" "count s2 = count s1 - 1"
    "take (nat (count s2)) xs2 =
       take (nat index) (take (nat (count s1)) xs1) @ drop (Suc (nat index)) (take (nat (count s1)) xs1)"
    using removeVector_spec[OF i(2,3) assms(4) idx] by blast
  have "take (nat (count s2)) xs2 = ?cs"
    using r(4) insert_remove_list[OF len, of x] unfolding i(5) by simp
  then have "elementSeq h2 v = Some es" "sizeVector v h2 = Inr (n, h2)"
    using elementSeq_ok[OF r(2)] sizeVector_ok[OF r(2)] r(3) i(4) obs v(1) by simp_all
  moreover have "insertThenRemove v index x h = Inr ((), h2)"
    using i(1) r(1) v(1) by (simp add: insertThenRemove_def bind_def)
  ultimately show ?thesis
    by blast
qed

theorem insert_then_remove_restores_witness:
  "heap_ok fullHeap \<and> vector_ok fullHeap (Ptr 0)
   \<and> observe fullHeap (Ptr 0) = (Inr 2, Inr 2, Some [Inr (Ptr 5), Inr (Ptr 6)])
   \<and> (\<exists>h2. insertThenRemove (Ptr 0) 1 (Ptr 7) fullHeap = Inr ((), h2)
          \<and> elementSeq h2 (Ptr 0) = Some [Inr (Ptr 5), Inr (Ptr 6)]
          \<and> sizeVector (Ptr 0) h2 = Inr (2, h2))"
  using insert_then_remove_restores[OF fullHeap_ok, of 1 "Ptr 7"] fullHeap_ok
  by (simp add: INT_MAX_def)

text \<open>
  The claim as stated fails on the same two vectors: the insertion does not return, so
  nothing is restored.
\<close>

theorem insert_then_remove_restores_counterexample:
  "valueOf (arrayToVector (Ptr 0) 0 (arrayHeap 0 :: nat heap)) = Inr (Ptr 1)
   \<and> valueOf (insertThenRemove (Ptr 1) 0 NULL
         (heapOf (arrayToVector (Ptr 0) 0 (arrayHeap 0 :: nat heap)))) = Inl MemoryFault
   \<and> valueOf (arrayToVector (Ptr 0) 1073741824 (arrayHeap 1073741824 :: nat heap)) = Inr (Ptr 1)
   \<and> valueOf (insertThenRemove (Ptr 1) 0 NULL
         (heapOf (arrayToVector (Ptr 0) 1073741824 (arrayHeap 1073741824 :: nat heap)))) = Inl NoMemory"
proof -
  have small: "valueOf (arrayToVector (Ptr 0) 0 (arrayHeap 0 :: nat heap)) = Inr (Ptr 1)
   \<and> valueOf (insertThenRemove (Ptr 1) 0 NULL
         (heapOf (arrayToVector (Ptr 0) 0 (arrayHeap 0 :: nat heap)))) = Inl MemoryFault"
    by (simp add: arrayHeap_def valueOf_def heapOf_def bind_def ret_def arrayToVector_def
          newBlock_def enableIteration_def setField_def getField_def newArray_def copySlots.simps
          insertThenRemove_def insertVector_def expandCapacity_def int32_def freeBlock_def
          writeSlot_def shiftUp.simps)
  obtain h' :: "nat heap" where h':
    "arrayToVector (Ptr 0) 1073741824 (arrayHeap 1073741824) = Inr (Ptr 1, h')"
    "vec h' 1 \<lparr>header = Some NewVectorIterator, elements = Ptr 2,
               count = 1073741824, capacity = 1073741824\<rparr> 2 (replicate 1073741824 NULL)"
    using hugeVector by (elim exE conjE)
  have "insertVector (Ptr 1) 0 NULL h' = Inl (NoMemory, h')"
    using h'(2) by (rule insertVector_overflow) (simp_all add: INT_MAX_def)
  then have "insertThenRemove (Ptr 1) 0 NULL h' = Inl (NoMemory, h')"
    by (simp add: insertThenRemove_def bind_def)
  then show ?thesis
    using small h'(1) by (simp add: valueOf_def heapOf_def)
qed

section \<open>Sequences of appends\<close>

text \<open>
  Claim C2, amended. For every \<open>N\<close> with \<^verbatim>\<open>INITIAL_CAPACITY\<close> \<open>< N \<le> 1342177280\<close> (ten times
  \<open>2\<^sup>2\<^sup>7\<close>, the largest capacity that doubling reaches within \<^verbatim>\<open>int\<close>) and every sequence
  of \<open>N\<close> appends to a freshly created empty vector: every append returns, the size is
  \<open>N\<close>, \<^verbatim>\<open>getVector\<close> at \<open>i\<close> returns the \<open>i\<close>-th appended value for every \<open>0 \<le> i < N\<close>, and
  the capacity is the smallest power-of-two multiple of the initial capacity that is at
  least \<open>N\<close>.
\<close>

theorem appends_fill:
  assumes "heap_ok h" "INITIAL_CAPACITY < int (length xs)" "int (length xs) \<le> 1342177280"
  shows "\<exists>v h0 h'. newVector h = Inr (v, h0) \<and> addAll v xs h0 = Inr ((), h')
           \<and> sizeVector v h' = Inr (int (length xs), h')
           \<and> (\<forall>i<length xs. getVector v (int i) h' = Inr (xs ! i, h'))
           \<and> getField capacity v h' = Inr (leastDoubling INITIAL_CAPACITY (int (length xs)), h')
           \<and> (\<exists>k. leastDoubling INITIAL_CAPACITY (int (length xs)) = INITIAL_CAPACITY * 2 ^ k)
           \<and> int (length xs) \<le> leastDoubling INITIAL_CAPACITY (int (length xs))
           \<and> (\<forall>j. int (length xs) \<le> INITIAL_CAPACITY * 2 ^ j \<longrightarrow>
                  leastDoubling INITIAL_CAPACITY (int (length xs)) \<le> INITIAL_CAPACITY * 2 ^ j)"
proof -
  let ?n = "int (length xs)"
  have pos: "0 < INITIAL_CAPACITY"
    by (simp add: INITIAL_CAPACITY_def)
  obtain h0 s0 b0 xs0 where n: "newVector h = Inr (Ptr (next_addr h), h0)" "heap_ok h0"
    "vec h0 (next_addr h) s0 b0 xs0" "count s0 = 0" "capacity s0 = INITIAL_CAPACITY"
    using newVector_vec[OF assms(1)] by blast
  have "leastDoubling INITIAL_CAPACITY ?n \<le> INITIAL_CAPACITY * 2 ^ 27"
    using assms(3) pos unfolding largest_doubling by (intro leastDoubling_least)
  then have bound: "leastDoubling (capacity s0) (count s0 + ?n) \<le> INT_MAX"
    using n(4,5) by (simp add: INITIAL_CAPACITY_def INT_MAX_def)
  have one: "1 \<le> capacity s0"
    using n(5) pos by simp
  obtain h' s' b' xs' where r: "addAll (Ptr (next_addr h)) xs h0 = Inr ((), h')"
    "vec h' (next_addr h) s' b' xs'" "count s' = count s0 + ?n"
    "capacity s' = leastDoubling (capacity s0) (count s0 + ?n)"
    "take (nat (count s')) xs' = take (nat (count s0)) xs0 @ xs"
    using addAll_spec[OF n(2,3) one bound] by blast
  have c: "count s' = ?n" "capacity s' = leastDoubling INITIAL_CAPACITY ?n"
    using r(3,4) n(4,5) by simp_all
  have elems: "take (length xs) xs' = xs"
    using r(5) n(4) c(1) by simp
  have "getVector (Ptr (next_addr h)) (int i) h' = Inr (xs ! i, h')" if "i < length xs" for i
  proof -
    have "getVector (Ptr (next_addr h)) (int i) h' = Inr (xs' ! nat (int i), h')"
      using that c(1) by (intro getVector_ok[OF r(2)]) simp_all
    moreover have "xs' ! i = take (length xs) xs' ! i"
      using that by simp
    ultimately show ?thesis
      using elems by simp
  qed
  moreover have "sizeVector (Ptr (next_addr h)) h' = Inr (?n, h')"
    using sizeVector_ok[OF r(2)] c(1) by simp
  moreover have "getField capacity (Ptr (next_addr h)) h' = Inr (leastDoubling INITIAL_CAPACITY ?n, h')"
    using r(2) c(2) by (simp add: vec_def getField_def)
  ultimately show ?thesis
    using n(1) r(1) leastDoubling_power[OF pos, of ?n] leastDoubling_reach[OF pos, of ?n]
      leastDoubling_least[OF pos, of ?n]
    by blast
qed

theorem appends_fill_witness:
  "heap_ok (emptyHeap :: nat heap)
   \<and> INITIAL_CAPACITY < int (length (replicate 11 (Ptr (7::nat))))
   \<and> int (length (replicate 11 (Ptr (7::nat)))) \<le> 1342177280
   \<and> (\<exists>v h0 h'. newVector (emptyHeap :: nat heap) = Inr (v, h0)
          \<and> addAll v (replicate 11 (Ptr 7)) h0 = Inr ((), h')
          \<and> sizeVector v h' = Inr (11, h')
          \<and> getVector v 10 h' = Inr (Ptr 7, h')
          \<and> getField capacity v h' = Inr (20, h'))"
proof -
  have l: "leastDoubling INITIAL_CAPACITY 11 = 20"
    by (simp add: leastDoubling.simps INITIAL_CAPACITY_def)
  have pre: "INITIAL_CAPACITY < int (length (replicate 11 (Ptr (7::nat))))"
    "int (length (replicate 11 (Ptr (7::nat)))) \<le> 1342177280"
    by (simp_all add: INITIAL_CAPACITY_def)
  obtain v and h0 h' :: "nat heap" where r: "newVector (emptyHeap :: nat heap) = Inr (v, h0)"
    "addAll v (replicate 11 (Ptr 7)) h0 = Inr ((), h')"
    "sizeVector v h' = Inr (int (length (replicate 11 (Ptr (7::nat)))), h')"
    "\<forall>i<length (replicate 11 (Ptr (7::nat))). getVector v (int i) h' = Inr (replicate 11 (Ptr 7) ! i, h')"
    "getField capacity v h' =
       Inr (leastDoubling INITIAL_CAPACITY (int (length (replicate 11 (Ptr (7::nat))))), h')"
    using appends_fill[OF emptyHeap_ok(1) pre] by (elim exE conjE)
  have "getVector v (int 10) h' = Inr (replicate 11 (Ptr 7) ! 10, h')"
    by (rule r(4)[rule_format]) simp
  then have "getVector v 10 h' = Inr (Ptr 7, h')"
    by simp
  then show ?thesis
    using r(1,2,3,5) l pre emptyHeap_ok(1) by auto
qed

text \<open>
  The claim as stated, for every \<open>N\<close>, fails at \<open>N = 1342177281\<close>: the vector is full at
  capacity 1342177280, doubling it leaves the range of \<^verbatim>\<open>int\<close>, and the last append halts
  in the allocator.
\<close>

theorem appends_fill_counterexample:
  "valueOf (newVector (emptyHeap :: nat heap)) = Inr (Ptr 0)
   \<and> valueOf (addAll (Ptr 0) (replicate 1342177281 NULL)
         (heapOf (newVector (emptyHeap :: nat heap)))) = Inl NoMemory"
proof -
  let ?n = "1342177280 :: nat"
  have pos: "0 < INITIAL_CAPACITY"
    by (simp add: INITIAL_CAPACITY_def)
  obtain h0 :: "nat heap" and s0 b0 xs0 where n: "newVector emptyHeap = Inr (Ptr (next_addr (emptyHeap :: nat heap)), h0)"
    "heap_ok h0" "vec h0 (next_addr (emptyHeap :: nat heap)) s0 b0 xs0" "count s0 = 0"
    "capacity s0 = INITIAL_CAPACITY"
    using newVector_vec[OF emptyHeap_ok(1)] by blast
  have n1: "newVector emptyHeap = Inr (Ptr 0, h0)" and v0: "vec h0 0 s0 b0 xs0"
    using n(1,3) by (simp_all add: emptyHeap_ok(2))
  have len: "int (length (replicate ?n (NULL :: nat pointer))) = 1342177280"
    by simp
  have up: "leastDoubling INITIAL_CAPACITY 1342177280 \<le> 1342177280"
    using leastDoubling_least[OF pos, of 1342177280 27] by (simp add: INITIAL_CAPACITY_def)
  have dn: "1342177280 \<le> leastDoubling INITIAL_CAPACITY 1342177280"
    using pos by (rule leastDoubling_reach)
  have cap: "leastDoubling INITIAL_CAPACITY 1342177280 = 1342177280"
    using up dn by simp
  have bound: "leastDoubling (capacity s0) (count s0 + int (length (replicate ?n (NULL :: nat pointer)))) \<le> INT_MAX"
    unfolding n(4,5) len using cap by (simp add: INT_MAX_def)
  have one: "1 \<le> capacity s0"
    using n(5) pos by simp
  obtain h' s' b' xs' where r: "addAll (Ptr 0) (replicate ?n NULL) h0 = Inr ((), h')"
    "vec h' 0 s' b' xs'" "count s' = count s0 + int (length (replicate ?n (NULL :: nat pointer)))"
    "capacity s' = leastDoubling (capacity s0) (count s0 + int (length (replicate ?n (NULL :: nat pointer))))"
    using addAll_spec[OF n(2) v0 one bound] by blast
  have c: "count s' = 1342177280" "capacity s' = 1342177280"
    using r(3,4) unfolding n(4,5) len using cap by simp_all
  have "addVector (Ptr 0) NULL h' = Inl (NoMemory, h')"
    using r(2) by (rule addVector_overflow) (simp_all add: c INT_MAX_def)
  then have "addAll (Ptr 0) (replicate ?n NULL @ [NULL]) h0 = Inl (NoMemory, h')"
    using r(1) by (simp add: addAll_append bind_def)
  moreover have "replicate 1342177281 (NULL :: nat pointer) = replicate ?n NULL @ [NULL]"
  proof -
    have "(1342177281 :: nat) = Suc ?n" by simp
    then show ?thesis
      by (simp only: replicate_append_same replicate_Suc)
  qed
  ultimately show ?thesis
    using n1 by (simp add: valueOf_def heapOf_def)
qed

section \<open>Conversion from and to arrays\<close>

text \<open>
  Claim C5, amended. For every non-null array \<open>A\<close> of length \<open>n\<close> with \<open>0 \<le> n <\<close> \<^verbatim>\<open>INT_MAX\<close>,
  \<^verbatim>\<open>arrayToVector\<close> followed by \<^verbatim>\<open>vectorToArray\<close> returns a newly allocated array (at an
  address that held no block before) of length \<open>n + 1\<close>: the entries of \<open>A\<close> in order, then
  the terminating null. \<open>A\<close> itself is left as it was.
\<close>

theorem array_round_trip:
  assumes "heap_ok h" "arrays h a = Some xs" "int (length xs) < INT_MAX"
  shows "\<exists>v h1 r h2. arrayToVector (Ptr a) (int (length xs)) h = Inr (v, h1)
           \<and> vectorToArray v h1 = Inr (Ptr r, h2)
           \<and> arrays h r = None \<and> arrays h2 r = Some (xs @ [NULL]) \<and> arrays h2 a = Some xs"
proof -
  let ?N = "next_addr h"
  let ?n = "int (length xs)"
  let ?s = "\<lparr>header = Some NewVectorIterator, elements = Ptr (Suc ?N), count = ?n, capacity = ?n\<rparr>"
  have pre: "0 \<le> ?n" "?n \<le> int (length xs)"
    by simp_all
  obtain h1 where h1: "arrayToVector (Ptr a) ?n h = Inr (Ptr ?N, h1)"
    "structs h1 = (structs h)(?N \<mapsto> ?s)"
    "arrays h1 = (arrays h)(Suc ?N \<mapsto> take (nat ?n) xs)"
    "iterators h1 = iterators h" "next_addr h1 = Suc (Suc ?N)"
    using arrayToVector_ok[OF assms(1,2) pre] by (elim exE conjE)
  have live: "a < ?N"
    using assms(1,2) by (rule heap_ok_fresh2)
  have ok1: "heap_ok h1"
    using assms(1) h1(2-5) by (auto simp: heap_ok_def)
  have v1: "vec h1 ?N ?s (Suc ?N) xs"
    using h1(2,3) assms(3) by (simp add: vec_def)
  have lt: "count ?s < INT_MAX"
    using assms(3) by simp
  obtain h2 where h2: "vectorToArray (Ptr ?N) h1 = Inr (Ptr (next_addr h1), h2)"
    "arrays h2 = (arrays h1)(next_addr h1 \<mapsto> take (nat (count ?s)) xs @ [NULL])"
    using vectorToArray_ok[OF ok1 v1 lt] by (elim exE conjE)
  have "arrays h (Suc (Suc ?N)) = None"
    using assms(1) by (simp add: heap_ok_def)
  moreover have "arrays h2 (Suc (Suc ?N)) = Some (xs @ [NULL])"
    using h2(2) h1(5) by simp
  moreover have "arrays h2 a = Some xs"
    using h2(2) h1(3,5) live assms(2) by simp
  ultimately show ?thesis
    using h1(1) h2(1) h1(5) by (intro exI[of _ "Ptr ?N"] exI[of _ h1] exI[of _ "Suc (Suc ?N)"] exI[of _ h2]) simp
qed

theorem array_round_trip_witness:
  "heap_ok (arrayHeap 3 :: nat heap) \<and> arrays (arrayHeap 3 :: nat heap) 0 = Some [NULL, NULL, NULL]
   \<and> int (length [NULL :: nat pointer, NULL, NULL]) < INT_MAX
   \<and> (\<exists>v h1 r h2. arrayToVector (Ptr 0) 3 (arrayHeap 3 :: nat heap) = Inr (v, h1)
          \<and> vectorToArray v h1 = Inr (Ptr r, h2)
          \<and> arrays h2 r = Some [NULL, NULL, NULL, NULL])"
proof -
  have a: "arrays (arrayHeap 3 :: nat heap) 0 = Some [NULL, NULL, NULL]"
    by (simp add: arrayHeap_def numeral_3_eq_3)
  have l: "int (length [NULL :: nat pointer, NULL, NULL]) < INT_MAX"
    by (simp add: INT_MAX_def)
  show ?thesis
    using array_round_trip[OF arrayHeap_ok(1) a l] a l arrayHeap_ok(1)[of 3]
    by simp blast
qed

text \<open>
  The claim as stated, for every length, fails at \<open>n =\<close> \<^verbatim>\<open>INT_MAX\<close>: \<^verbatim>\<open>vectorToArray\<close>
  computes \<open>n + 1\<close>, which leaves the range of \<^verbatim>\<open>int\<close>, and halts in the allocator.
\<close>

theorem array_round_trip_counterexample:
  "valueOf (arrayToVector (Ptr 0) 2147483647 (arrayHeap 2147483647 :: nat heap)) = Inr (Ptr 1)
   \<and> valueOf (vectorToArray (Ptr 1)
         (heapOf (arrayToVector (Ptr 0) 2147483647 (arrayHeap 2147483647 :: nat heap)))) = Inl NoMemory"
proof -
  have "int 2147483647 \<le> INT_MAX"
    by (simp add: INT_MAX_def)
  from arrayToVector_arrayHeap[OF this]
  obtain h' :: "nat heap" where h':
    "arrayToVector (Ptr 0) (int 2147483647) (arrayHeap 2147483647) = Inr (Ptr (Suc 0), h')"
    "vec h' (Suc 0)
       \<lparr>header = Some NewVectorIterator, elements = Ptr (Suc (Suc 0)),
        count = int 2147483647, capacity = int 2147483647\<rparr>
       (Suc (Suc 0)) (replicate 2147483647 NULL)"
    by (elim exE conjE)
  have "vectorToArray (Ptr (Suc 0)) h' = Inl (NoMemory, h')"
    using h'(2) by (rule vectorToArray_overflow) (simp add: INT_MAX_def)
  then show ?thesis
    using h'(1) by (simp add: valueOf_def heapOf_def)
qed

section \<open>Cloning\<close>

text \<open>
  Claim C7 says that for every vector the clone is independent: a mutation of either
  vector never changes the size or the element values that the other one shows. The
  vector of capacity 0 that \<^verbatim>\<open>arrayToVector\<close> makes of an empty array has a clone
  of capacity 0 as well, and an append to that clone doubles 0 to 0 and stores into slot 0
  of a buffer of no slots. From that store on the program is outside its own block, and
  nothing is guaranteed about the other vector.
\<close>

theorem clone_of_empty_vector_faults:
  "valueOf (arrayToVector (Ptr 0) 0 (arrayHeap 0 :: nat heap)) = Inr (Ptr 1)
   \<and> valueOf (cloneVector (Ptr 1)
         (heapOf (arrayToVector (Ptr 0) 0 (arrayHeap 0 :: nat heap)))) = Inr (Ptr 3)
   \<and> valueOf (getField capacity (Ptr 3)
         (heapOf (cloneVector (Ptr 1)
           (heapOf (arrayToVector (Ptr 0) 0 (arrayHeap 0 :: nat heap)))))) = Inr 0
   \<and> valueOf (addVector (Ptr 3) NULL
         (heapOf (cloneVector (Ptr 1)
           (heapOf (arrayToVector (Ptr 0) 0 (arrayHeap 0 :: nat heap)))))) = Inl MemoryFault"
  by (simp add: arrayHeap_def valueOf_def heapOf_def bind_def ret_def arrayToVector_def
        cloneVector_def newBlock_def enableIteration_def setField_def getField_def newArray_def
        copySlots.simps addVector_def expandCapacity_def int32_def freeBlock_def writeSlot_def)

text \<open>
  On the runs that stay inside their buffers the clone is independent. For every vector
  \<open>v\<close>, \<^verbatim>\<open>cloneVector\<close> returns a new well-formed vector: a struct at an address that held
  none, with a buffer of its own (a block of \<^verbatim>\<open>capacity\<close> slots at an address that held none,
  different from the buffer of \<open>v\<close>), with the same count and capacity and the same element
  references in the same order. Afterwards a sequence of mutations of either vector (set,
  append, remove, insert, clear) that does not reach a store outside a buffer leaves the
  size, the capacity and the element values of the other one unchanged, whether the
  sequence returns or halts in the error reporter or in the allocator.
\<close>

lemma clone_independent:
  assumes "heap_ok h" "vector_ok h v"
  shows "\<exists>c h1 a' b'. cloneVector v h = Inr (c, h1)
           \<and> c = Ptr a' \<and> structs h a' = None
           \<and> getField elements c h1 = Inr (Ptr b', h1) \<and> arrays h b' = None
           \<and> getField elements v h1 \<noteq> Inr (Ptr b', h1)
           \<and> heap_ok h1 \<and> vector_ok h1 c \<and> vector_ok h1 v
           \<and> observe h1 c = observe h v \<and> observe h1 v = observe h v
           \<and> (\<forall>ms. valueOf (mutateAll c ms h1) \<noteq> Inl MemoryFault \<longrightarrow>
                  observe (heapOf (mutateAll c ms h1)) v = observe h v)
           \<and> (\<forall>ms. valueOf (mutateAll v ms h1) \<noteq> Inl MemoryFault \<longrightarrow>
                  observe (heapOf (mutateAll v ms h1)) c = observe h v)"
proof -
  obtain a s b xs where v: "v = Ptr a" "vec h a s b xs"
    using assms(2) by (auto simp: vector_ok_iff)
  let ?N = "next_addr h"
  let ?sc = "\<lparr>header = Some NewVectorIterator, elements = Ptr (Suc ?N),
              count = count s, capacity = capacity s\<rparr>"
  let ?ys = "take (nat (count s)) xs @ replicate (length xs - nat (count s)) Wild"
  obtain h1 where h1: "cloneVector (Ptr a) h = Inr (Ptr ?N, h1)"
    "structs h1 = (structs h)(?N \<mapsto> ?sc)"
    "arrays h1 = (arrays h)(Suc ?N \<mapsto> ?ys)"
    "iterators h1 = iterators h" "next_addr h1 = Suc (Suc ?N)"
    using cloneVector_ok[OF assms(1) v(2)] by (elim exE conjE)
  have f: "structs h a = Some s" "elements s = Ptr b" "arrays h b = Some xs"
    "0 \<le> count s" "count s \<le> capacity s" "capacity s = int (length xs)" "capacity s \<le> INT_MAX"
    using v(2) by (simp_all add: vec_def)
  have live: "a < ?N" "b < ?N"
    using vec_live[OF assms(1) v(2)] by simp_all
  have fresh: "structs h ?N = None" "arrays h (Suc ?N) = None"
    using assms(1) by (simp_all add: heap_ok_def)
  have ok1: "heap_ok h1"
    using assms(1) h1(2-5) by (auto simp: heap_ok_def)
  have vv: "vec h1 a s b xs"
    using f live h1(2,3) by (simp add: vec_def)
  have len: "length ?ys = length xs"
    using f(4,5,6) by simp
  have vc: "vec h1 ?N ?sc (Suc ?N) ?ys"
    unfolding vec_def using h1(2,3) f(4,5,6,7) len by simp
  have okv: "vector_ok h1 (Ptr a)" and okc: "vector_ok h1 (Ptr ?N)"
    using vv vc by (auto simp: vector_ok_iff)
  have same: "take (nat (count ?sc)) ?ys = take (nat (count s)) xs"
    using f(4,5,6) by simp
  have ov: "observe h1 (Ptr a) = observe h (Ptr a)"
    using observe_ok[OF vv] observe_ok[OF v(2)] by simp
  have oc: "observe h1 (Ptr ?N) = observe h (Ptr a)"
    using observe_ok[OF vc] observe_ok[OF v(2)] same by simp
  have ne: "?N \<noteq> a" "Suc ?N \<noteq> b" "a \<noteq> ?N" "b \<noteq> Suc ?N"
    using live by simp_all
  have mc: "observe (heapOf (mutateAll (Ptr ?N) ms h1)) (Ptr a) = observe h (Ptr a)"
    if nf: "valueOf (mutateAll (Ptr ?N) ms h1) \<noteq> Inl MemoryFault" for ms
  proof -
    have "vec (heapOf (mutateAll (Ptr ?N) ms h1)) a s b xs"
      using mutateAll_frame[OF ok1 vc nf] vv ne(3,4) by blast
    then show ?thesis
      using observe_ok[OF v(2)] by (simp add: observe_ok)
  qed
  have mv: "observe (heapOf (mutateAll (Ptr a) ms h1)) (Ptr ?N) = observe h (Ptr a)"
    if nf: "valueOf (mutateAll (Ptr a) ms h1) \<noteq> Inl MemoryFault" for ms
  proof -
    have "vec (heapOf (mutateAll (Ptr a) ms h1)) ?N ?sc (Suc ?N) ?ys"
      using mutateAll_frame[OF ok1 vv nf] vc ne(1,2) by blast
    then show ?thesis
      using oc observe_ok[OF vc] by (simp add: observe_ok)
  qed
  have ec: "getField elements (Ptr ?N) h1 = Inr (Ptr (Suc ?N), h1)"
    using h1(2) by (simp add: getField_def)
  have ev: "getField elements (Ptr a) h1 \<noteq> Inr (Ptr (Suc ?N), h1)"
    using h1(2) f(1,2) ne by (simp add: getField_def)
  show ?thesis
    using h1(1) fresh ec ev ok1 okv okc oc ov mc mv unfolding v(1)
    by (intro exI[of _ "Ptr ?N"] exI[of _ h1] exI[of _ ?N] exI[of _ "Suc ?N"]) simp
qed

section \<open>The iterator is a snapshot\<close>






section \<open>Absent inputs and range failures\<close>

text \<open>
  Claim C9. Given an absent (null) input, the two conversions return the absent sentinel
  and do not halt: \<^verbatim>\<open>arrayToVector\<close> of a null array returns the null vector,
  \<^verbatim>\<open>vectorToArray\<close> of a null vector returns the null array, and neither reaches the
  fatal error reporter (both return, with the store untouched).
\<close>

theorem conversions_null_input:
  "arrayToVector NULL n h = Inr (NULL, h) \<and> vectorToArray NULL h = Inr (NULL, h)"
  by (simp add: arrayToVector_def vectorToArray_def ret_def)

text \<open>
  Claim C10. For every vector (a pointer through which \<^verbatim>\<open>sizeVector\<close> reads the count
  \<open>n\<close>) and every index outside \<open>[0, n)\<close>, \<^verbatim>\<open>setVector\<close> halts in the fatal error
  reporter with the message \<^verbatim>\<open>get: Index value out of range\<close>, which names the get
  operation, not set.
\<close>

theorem setVector_out_of_range_message:
  assumes "sizeVector vector h = Inr (n, h)" "index < 0 \<or> n \<le> index"
  shows "setVector vector index x h = Inl (Fatal ''get: Index value out of range'', h)"
  using assms
  by (auto simp: setVector_def sizeVector_def getField_def bind_def error_def halt_def
           split: pointer.splits option.splits)

theorem setVector_out_of_range_message_witness:
  "sizeVector (Ptr 0) fullHeap = Inr (2, fullHeap) \<and> ((2::int) < 0 \<or> (2::int) \<le> 2)
   \<and> setVector (Ptr 0) 2 NULL fullHeap = Inl (Fatal ''get: Index value out of range'', fullHeap)"
  using setVector_out_of_range_message[of "Ptr 0" fullHeap 2 2 NULL]
  by (simp add: sizeVector_def getField_def fullHeap_def)

text \<open>
  Claim C6. For every vector and every out-of-range index passed to get, set, insert or
  remove (for insert, an index outside \<open>[0, count]\<close>; for the others, outside
  \<open>[0, count)\<close>), the operation halts in the fatal error reporter before any mutation:
  the store in which it halts is the store it was called in, so count, capacity and
  element sequence are as they were.
\<close>

theorem range_failures_leave_store:
  assumes "sizeVector vector h = Inr (n, h)"
  shows "(index < 0 \<or> n \<le> index \<longrightarrow>
            getVector vector index h = Inl (Fatal ''get: Index value out of range'', h)
          \<and> setVector vector index x h = Inl (Fatal ''get: Index value out of range'', h)
          \<and> removeVector vector index h = Inl (Fatal ''remove: Index value out of range'', h))
       \<and> (index < 0 \<or> n < index \<longrightarrow>
            insertVector vector index x h = Inl (Fatal ''insert: Index value out of range'', h))"
  using assms
  by (auto simp: getVector_def setVector_def removeVector_def insertVector_def sizeVector_def
                 getField_def bind_def error_def halt_def
           split: pointer.splits option.splits)

theorem range_failures_leave_store_witness:
  "sizeVector (Ptr 0) fullHeap = Inr (2, fullHeap)
   \<and> ((3::int) < 0 \<or> (2::int) \<le> 3) \<and> ((3::int) < 0 \<or> (2::int) < 3)
   \<and> getVector (Ptr 0) 3 fullHeap = Inl (Fatal ''get: Index value out of range'', fullHeap)
   \<and> setVector (Ptr 0) 3 NULL fullHeap = Inl (Fatal ''get: Index value out of range'', fullHeap)
   \<and> removeVector (Ptr 0) 3 fullHeap = Inl (Fatal ''remove: Index value out of range'', fullHeap)
   \<and> insertVector (Ptr 0) 3 NULL fullHeap = Inl (Fatal ''insert: Index value out of range'', fullHeap)"
  using range_failures_leave_store[of "Ptr 0" fullHeap 2 3 NULL]
  by (simp add: sizeVector_def getField_def fullHeap_def)

section \<open>A vector without capacity\<close>

text \<open>
  Claim C1 says that every vector reachable through the public operations has a capacity
  of at least 1. \<^verbatim>\<open>arrayToVector\<close> on a non-null array of length 0 returns a vector of
  capacity 0. On that vector \<^verbatim>\<open>addVector\<close> doubles 0 to 0, allocates a buffer of no slots
  and stores into its slot 0, which lies outside the block.
\<close>

theorem arrayToVector_empty_capacity:
  "valueOf (arrayToVector (Ptr 0) 0 (arrayHeap 0 :: nat heap)) = Inr (Ptr 1)
   \<and> valueOf (getField capacity (Ptr 1)
         (heapOf (arrayToVector (Ptr 0) 0 (arrayHeap 0 :: nat heap)))) = Inr 0
   \<and> valueOf (addVector (Ptr 1) NULL
         (heapOf (arrayToVector (Ptr 0) 0 (arrayHeap 0 :: nat heap)))) = Inl MemoryFault"
  by (simp add: arrayHeap_def valueOf_def heapOf_def bind_def ret_def arrayToVector_def
        newBlock_def enableIteration_def setField_def getField_def newArray_def copySlots.simps
        addVector_def expandCapacity_def int32_def freeBlock_def writeSlot_def)

end
